theory Spec2Isabelle
  imports Main "HOL-Library.AList" "HOL-Library.Sublist"
begin

section \<open>Strings\<close>

text \<open>
  JavaScript strings are modelled as \<open>string\<close> (lists of 8-bit characters).
  \<open>String.prototype.startsWith\<close> and \<open>endsWith\<close> compare the leading and the
  trailing characters.
\<close>

definition startsWith :: "string \<Rightarrow> string \<Rightarrow> bool" where
  "startsWith s p = (take (length p) s = p)"

definition endsWith :: "string \<Rightarrow> string \<Rightarrow> bool" where
  "endsWith s p = (length p \<le> length s \<and> drop (length s - length p) s = p)"

section \<open>update-min-versions: data model\<close>

text \<open>
  A plain JavaScript object used as a dictionary is an association list in insertion
  order; \<open>Object.entries\<close> lists it in that order, \<open>obj[k]\<close> is \<open>map_of\<close>, and
  \<open>obj[k] = v\<close> is \<open>AList.update\<close> (overwrite in place, or append a new key).
  The keys of an object are pairwise different (\<open>wf_obj\<close>). The keys here are
  package names; none is an array index, which \<open>Object.entries\<close> would list first.
\<close>

type_synonym obj = "(string \<times> string) list"

definition wf_obj :: "obj \<Rightarrow> bool" where
  "wf_obj al = distinct (map fst al)"

datatype depType = T_dependencies | T_devDependencies | T_peerDependencies

definition dependencyTypes :: "depType list" where
  "dependencyTypes = [T_dependencies, T_devDependencies, T_peerDependencies]"

text \<open>
  The manifest of a package. \<open>name\<close> is \<open>None\<close> for a manifest without a name
  (\<open>undefined\<close> at run time); an absent dependency map is \<open>None\<close>.
\<close>

record packageJson =
  name :: "string option"
  version :: string
  isPrivate :: bool
  dependencies :: "obj option"
  devDependencies :: "obj option"
  peerDependencies :: "obj option"

record Package =
  dir :: string
  packageJson :: packageJson

text \<open>\<open>pkg.packageJson[depType]\<close>, read and written.\<close>

fun get_deps :: "depType \<Rightarrow> packageJson \<Rightarrow> obj option" where
  "get_deps T_dependencies pj = dependencies pj"
| "get_deps T_devDependencies pj = devDependencies pj"
| "get_deps T_peerDependencies pj = peerDependencies pj"

fun set_deps :: "depType \<Rightarrow> obj option \<Rightarrow> packageJson \<Rightarrow> packageJson" where
  "set_deps T_dependencies d pj = pj\<lparr>dependencies := d\<rparr>"
| "set_deps T_devDependencies d pj = pj\<lparr>devDependencies := d\<rparr>"
| "set_deps T_peerDependencies d pj = pj\<lparr>peerDependencies := d\<rparr>"

record Dependency =
  dep_name :: "string option"
  versionRange :: string
  depType :: depType

datatype bumpType = major | minor | patch | none

record ComprehensiveRelease =
  rel_name :: string
  rel_type :: bumpType
  oldVersion :: string
  newVersion :: string

record ReleasePlan =
  releases :: "ComprehensiveRelease list"

datatype error =
    CannotFindPackage Dependency
  | AssertionError depType "string option"

text \<open>
  What the script does to the outside world after the loops: one \<open>writeFile\<close> per updated
  package (the file is \<open>package.json\<close> in the package's directory, the content is the
  serialised manifest), then the calls \<open>git add -u\<close> and \<open>git commit\<close>; an effect
  is the call, and what git records is outside the model. Console output is left out. A run ends with its outcome (an error, or none), the package objects in
  memory and the effects issued.
\<close>

datatype effect = WriteFile Package | GitAdd | GitCommit

record run =
  outcome :: "error option"
  memory :: "Package list"
  effects :: "effect list"

section \<open>update-min-versions: the functions\<close>

text \<open>
  \<open>getDependentsGraph\<close>: a \<open>Map\<close> from dependency name to the list of its dependents,
  filled by three nested loops (packages, dependency types, entries).
\<close>

definition add_dependent ::
  "string option \<Rightarrow> depType \<Rightarrow> string \<times> string \<Rightarrow> (string \<rightharpoonup> Dependency list)
     \<Rightarrow> (string \<rightharpoonup> Dependency list)" where
  "add_dependent pkgName dt e graph =
     (let dependents = (case graph (fst e) of None \<Rightarrow> [] | Some ds \<Rightarrow> ds)
      in graph(fst e \<mapsto>
           dependents @ [\<lparr>dep_name = pkgName, versionRange = snd e, depType = dt\<rparr>]))"

definition entries_of :: "obj option \<Rightarrow> (string \<times> string) list" where
  "entries_of d = (case d of None \<Rightarrow> [] | Some al \<Rightarrow> al)"

definition getDependentsGraph :: "Package list \<Rightarrow> (string \<rightharpoonup> Dependency list)" where
  "getDependentsGraph packages =
     fold (\<lambda>pkg graph.
        fold (\<lambda>dt graph.
           fold (add_dependent (name (packageJson pkg)) dt)
                (entries_of (get_deps dt (packageJson pkg))) graph)
          dependencyTypes graph)
       packages Map.empty"

text \<open>
  Package objects are shared between the package list, \<open>packagesByName\<close> and the set of
  updated dependents, and are mutated in place. The heap is the package list itself and
  a reference to a package object is its position in that list.
  \<open>new Map(pairs)\<close> keeps the last pair of a repeated key.
\<close>

definition packagesByName :: "Package list \<Rightarrow> (string option \<rightharpoonup> nat)" where
  "packagesByName packages =
     fold (\<lambda>(i, x) m. m(name (packageJson x) \<mapsto> i)) (enumerate 0 packages) Map.empty"

definition releasesByName ::
  "ComprehensiveRelease list \<Rightarrow> (string option \<rightharpoonup> ComprehensiveRelease)" where
  "releasesByName rs = fold (\<lambda>x m. m(Some (rel_name x) \<mapsto> x)) rs Map.empty"

text \<open>The test of lines 85-89: the dependent will not be released with a new version.\<close>

definition not_released ::
  "(string option \<rightharpoonup> ComprehensiveRelease) \<Rightarrow> Dependency \<Rightarrow> bool" where
  "not_released rbn dep =
     (case rbn (dep_name dep) of None \<Rightarrow> True
      | Some existingRelease \<Rightarrow> oldVersion existingRelease = newVersion existingRelease)"

text \<open>\<open>dependentDeps[release.name] = `^${release.newVersion}`\<close> on the package at \<open>r\<close>.\<close>

definition write_range :: "nat \<Rightarrow> depType \<Rightarrow> obj \<Rightarrow> string \<Rightarrow> string \<Rightarrow> Package list \<Rightarrow> Package list" where
  "write_range r dt dependentDeps k v heap =
     heap[r := (heap ! r)\<lparr>packageJson :=
        set_deps dt (Some (AList.update k v dependentDeps)) (packageJson (heap ! r))\<rparr>]"

fun updateDependents ::
  "ComprehensiveRelease \<Rightarrow> Dependency list \<Rightarrow> (string option \<rightharpoonup> nat)
     \<Rightarrow> (string option \<rightharpoonup> ComprehensiveRelease)
     \<Rightarrow> nat list \<times> Package list \<Rightarrow> error option \<times> nat list \<times> Package list" where
  "updateDependents release [] pbn rbn (updatedDependents, heap) =
     (None, updatedDependents, heap)"
| "updateDependents release (dep # rest) pbn rbn (updatedDependents, heap) =
     (if not_released rbn dep then
        (if \<not> startsWith (versionRange dep) ''^'' then
           updateDependents release rest pbn rbn (updatedDependents, heap)
         else
           (case pbn (dep_name dep) of
              None \<Rightarrow> (Some (CannotFindPackage dep), updatedDependents, heap)
            | Some dependentPkg \<Rightarrow>
               (case get_deps (depType dep) (packageJson (heap ! dependentPkg)) of
                  None \<Rightarrow> (Some (AssertionError (depType dep) (dep_name dep)),
                            updatedDependents, heap)
                | Some dependentDeps \<Rightarrow>
                    updateDependents release rest pbn rbn
                      (updatedDependents @ [dependentPkg],
                       write_range dependentPkg (depType dep) dependentDeps
                         (rel_name release) (''^'' @ newVersion release) heap))))
      else updateDependents release rest pbn rbn (updatedDependents, heap))"

text \<open>\<open>Set.prototype.add\<close>: a set in insertion order.\<close>

definition set_add :: "nat \<Rightarrow> nat list \<Rightarrow> nat list" where
  "set_add x s = (if x \<in> set s then s else s @ [x])"

text \<open>The loop over the releases of the plan (lines 125-141).\<close>

fun release_loop ::
  "ComprehensiveRelease list \<Rightarrow> (string \<rightharpoonup> Dependency list) \<Rightarrow> (string option \<rightharpoonup> nat)
     \<Rightarrow> (string option \<rightharpoonup> ComprehensiveRelease)
     \<Rightarrow> nat list \<times> Package list \<Rightarrow> error option \<times> nat list \<times> Package list" where
  "release_loop [] dependentsGraph pbn rbn (updatedDependents, heap) =
     (None, updatedDependents, heap)"
| "release_loop (release # rest) dependentsGraph pbn rbn (updatedDependents, heap) =
     (if rel_type release = minor then
        (case dependentsGraph (rel_name release) of
           None \<Rightarrow> release_loop rest dependentsGraph pbn rbn (updatedDependents, heap)
         | Some dependents \<Rightarrow>
            (case updateDependents release dependents pbn rbn ([], heap) of
               (Some e, _, heap') \<Rightarrow> (Some e, updatedDependents, heap')
             | (None, upd, heap') \<Rightarrow>
                 release_loop rest dependentsGraph pbn rbn
                   (fold set_add upd updatedDependents, heap')))
      else release_loop rest dependentsGraph pbn rbn (updatedDependents, heap))"

text \<open>
  The body of \<open>main\<close> after the graph and the two lookup maps are built: the loop, then
  the writes, then the commit. An exception thrown in the loop rejects the promise before
  the write phase is reached.
\<close>

definition propagate ::
  "ComprehensiveRelease list \<Rightarrow> (string \<rightharpoonup> Dependency list) \<Rightarrow> (string option \<rightharpoonup> nat)
     \<Rightarrow> (string option \<rightharpoonup> ComprehensiveRelease) \<Rightarrow> Package list \<Rightarrow> run" where
  "propagate rs dependentsGraph pbn rbn packages =
     (case release_loop rs dependentsGraph pbn rbn ([], packages) of
        (Some e, _, heap) \<Rightarrow> \<lparr>outcome = Some e, memory = heap, effects = []\<rparr>
      | (None, updatedDependents, heap) \<Rightarrow>
          \<lparr>outcome = None, memory = heap,
           effects = map (\<lambda>pkg. WriteFile (heap ! pkg)) updatedDependents
                     @ (if length updatedDependents > 0 then [GitAdd, GitCommit] else [])\<rparr>)"

definition main :: "ReleasePlan \<Rightarrow> Package list \<Rightarrow> run" where
  "main releasePlan packages =
     propagate (releases releasePlan) (getDependentsGraph packages)
       (packagesByName packages) (releasesByName (releases releasePlan)) packages"

text \<open>The packages and releases of the repository's own test suite.\<close>

definition package_a :: Package where
  "package_a = \<lparr>dir = ''foo/package-a'',
     packageJson = \<lparr>name = Some ''@af/package-a'', version = ''1.0.0'', isPrivate = True,
       dependencies = None, devDependencies = None, peerDependencies = None\<rparr>\<rparr>"

definition package_b :: Package where
  "package_b = \<lparr>dir = ''foo/package-b'',
     packageJson = \<lparr>name = Some ''@af/package-b'', version = ''1.0.0'', isPrivate = True,
       dependencies = Some [(''@af/package-a'', ''^1.0.0'')],
       devDependencies = None, peerDependencies = None\<rparr>\<rparr>"

definition package_c :: Package where
  "package_c = \<lparr>dir = ''foo/package-c'',
     packageJson = \<lparr>name = Some ''@af/package-c'', version = ''1.0.0'', isPrivate = True,
       dependencies = Some [(''@af/package-a'', ''^1.0.0''), (''@af/package-b'', ''^1.0.0'')],
       devDependencies = None, peerDependencies = None\<rparr>\<rparr>"

definition test_packages :: "Package list" where
  "test_packages = [package_a, package_b, package_c]"

definition release_a_minor :: ComprehensiveRelease where
  "release_a_minor = \<lparr>rel_name = ''@af/package-a'', rel_type = minor,
     oldVersion = ''1.0.0'', newVersion = ''1.1.0''\<rparr>"

definition release_b_minor :: ComprehensiveRelease where
  "release_b_minor = \<lparr>rel_name = ''@af/package-b'', rel_type = minor,
     oldVersion = ''1.0.0'', newVersion = ''1.1.0''\<rparr>"

definition release_a_patch :: ComprehensiveRelease where
  "release_a_patch = \<lparr>rel_name = ''@af/package-a'', rel_type = patch,
     oldVersion = ''1.0.0'', newVersion = ''1.0.1''\<rparr>"

section \<open>Changed packages: resolving files to workspaces\<close>

text \<open>
  A workspace as the workspace tool lists it (its manifest, \<open>config\<close>, plays no part in
  the functions below and is left out), and the same with \<open>relativeDir\<close> added.
  \<open>path.sep\<close>, \<open>path.relative\<close> and the project directory are parameters.
\<close>

record Workspace =
  ws_dir :: string
  ws_name :: string

record AFPackageWithRelativeDir = Workspace +
  relativeDir :: string

record PackageWithChangedFiles = AFPackageWithRelativeDir +
  changedFiles :: "string list"

definition allPackages ::
  "(string \<Rightarrow> string \<Rightarrow> string) \<Rightarrow> string \<Rightarrow> Workspace list \<Rightarrow> AFPackageWithRelativeDir list" where
  "allPackages relative projectDir workspaces =
     map (\<lambda>pkg. \<lparr>ws_dir = ws_dir pkg, ws_name = ws_name pkg,
                  relativeDir = relative projectDir (ws_dir pkg)\<rparr>) workspaces"

definition fileNameToPackage ::
  "string \<Rightarrow> AFPackageWithRelativeDir list \<Rightarrow> string \<Rightarrow> AFPackageWithRelativeDir option" where
  "fileNameToPackage sep pkgs fileName =
     find (\<lambda>pkg. startsWith fileName (ws_dir pkg @ sep)) pkgs"

text \<open>
  Modelled from the spec: \<open>isDefined\<close> of the module \<open>./guards\<close>, which is not among the
  sources; a file matching no package is dropped, so it keeps what is not \<open>undefined\<close>.
\<close>

definition isDefined :: "'a option \<Rightarrow> bool" where
  "isDefined x = (x \<noteq> None)"

text \<open>\<open>Array.prototype.indexOf\<close> for an element that occurs in the array.\<close>

definition indexOf :: "'a list \<Rightarrow> 'a \<Rightarrow> nat" where
  "indexOf xs x = length (takeWhile (\<lambda>y. y \<noteq> x) xs)"

definition not_ratchet :: "string \<Rightarrow> bool" where
  "not_ratchet fileName = (\<not> endsWith fileName ''bundle-size-ratchet.json'')"

text \<open>
  \<open>find\<close> returns the first workspace object whose directory matches, so two results are
  the same object exactly when they are equal as values.
\<close>

definition getChangedPackagesFromChangedFiles ::
  "string \<Rightarrow> (string \<Rightarrow> string \<Rightarrow> string) \<Rightarrow> string \<Rightarrow> Workspace list \<Rightarrow> string list
     \<Rightarrow> AFPackageWithRelativeDir list" where
  "getChangedPackagesFromChangedFiles sep relative projectDir workspaces changedFileNames =
     (let pkgs = allPackages relative projectDir workspaces;
          packages = map the (filter isDefined
                       (map (fileNameToPackage sep pkgs) (filter not_ratchet changedFileNames)))
      in map fst (filter (\<lambda>(pkg, idx). indexOf packages pkg = idx)
                    (zip packages [0..<length packages])))"

text \<open>
  The reducer of \<open>getChangedPackagesWithChangedFiles\<close>. The accumulator is an object keyed
  by package name; an empty package name is falsy and is skipped. No package is named
  like a property that the accumulator inherits from \<open>Object.prototype\<close>.
\<close>

definition add_changed_file ::
  "string \<Rightarrow> (string \<Rightarrow> string \<Rightarrow> string) \<Rightarrow> string \<Rightarrow> AFPackageWithRelativeDir list
     \<Rightarrow> string \<Rightarrow> (string \<times> PackageWithChangedFiles) list
     \<Rightarrow> (string \<times> PackageWithChangedFiles) list" where
  "add_changed_file sep relative projectDir pkgs fileName acc =
     (case fileNameToPackage sep pkgs fileName of
        None \<Rightarrow> acc
      | Some correspondingPackage \<Rightarrow>
         (let packagename = ws_name correspondingPackage;
              fileName' = relative projectDir fileName
          in if packagename = [] then acc
             else (case map_of acc packagename of
                     Some entry \<Rightarrow>
                       AList.update packagename
                         (entry\<lparr>changedFiles := changedFiles entry @ [fileName']\<rparr>) acc
                   | None \<Rightarrow>
                       AList.update packagename
                         \<lparr>ws_dir = ws_dir correspondingPackage,
                          ws_name = ws_name correspondingPackage,
                          relativeDir = relativeDir correspondingPackage,
                          changedFiles = [fileName']\<rparr> acc)))"

definition getChangedPackagesWithChangedFiles ::
  "string \<Rightarrow> (string \<Rightarrow> string \<Rightarrow> string) \<Rightarrow> string \<Rightarrow> Workspace list \<Rightarrow> string list
     \<Rightarrow> PackageWithChangedFiles list" where
  "getChangedPackagesWithChangedFiles sep relative projectDir workspaces changedFileNames =
     (let pkgs = allPackages relative projectDir workspaces;
          changedPackagesWithChangedFiles =
            fold (add_changed_file sep relative projectDir pkgs)
                 (filter not_ratchet changedFileNames) []
      in map snd changedPackagesWithChangedFiles)"

section \<open>Changed packages: files that need a changeset\<close>

text \<open>
  The regular expressions of the file filter use characters, \<open>.\<close>, \<open>.*\<close>, alternation,
  \<open>?\<close> and the anchors \<open>^\<close> and \<open>$\<close>. \<open>.\<close> matches any character but a line
  terminator (among 8-bit characters: line feed and carriage return).
  \<open>remainders r s\<close> lists what is left of \<open>s\<close> after each way of matching
  \<open>r\<close> at its start, as a backtracking matcher explores them.
\<close>

datatype rexp =
    Eps
  | Chr char
  | Dot
  | DotStar
  | Seq rexp rexp
  | Alt rexp rexp
  | Opt rexp

primrec Str :: "string \<Rightarrow> rexp" where
  "Str [] = Eps"
| "Str (c # cs) = Seq (Chr c) (Str cs)"

definition line_terminator :: "char \<Rightarrow> bool" where
  "line_terminator c = (c = CHR 0x0A \<or> c = CHR 0x0D)"

fun dotstar_remainders :: "string \<Rightarrow> string list" where
  "dotstar_remainders [] = [[]]"
| "dotstar_remainders (c # cs) =
     (c # cs) # (if line_terminator c then [] else dotstar_remainders cs)"

primrec remainders :: "rexp \<Rightarrow> string \<Rightarrow> string list" where
  "remainders Eps = (\<lambda>s. [s])"
| "remainders (Chr c) = (\<lambda>s. case s of [] \<Rightarrow> [] | d # ds \<Rightarrow> if d = c then [ds] else [])"
| "remainders Dot =
     (\<lambda>s. case s of [] \<Rightarrow> [] | d # ds \<Rightarrow> if line_terminator d then [] else [ds])"
| "remainders DotStar = dotstar_remainders"
| "remainders (Seq r1 r2) = (\<lambda>s. concat (map (remainders r2) (remainders r1 s)))"
| "remainders (Alt r1 r2) = (\<lambda>s. remainders r1 s @ remainders r2 s)"
| "remainders (Opt r) = (\<lambda>s. remainders r s @ [s])"

text \<open>
  A \<open>RegExp\<close> without flags: whether it starts with \<open>^\<close>, its body, whether it ends with
  \<open>$\<close>. \<open>s.match(re)\<close> is truthy when the body matches at some start position (position
  0 only, under \<open>^\<close>) and, under \<open>$\<close>, up to the end of \<open>s\<close>.
\<close>

datatype regexp = RegExp bool rexp bool

fun js_match :: "regexp \<Rightarrow> string \<Rightarrow> bool" where
  "js_match (RegExp from_start r to_end) s =
     list_ex (\<lambda>u. list_ex (\<lambda>t. to_end \<longrightarrow> t = []) (remainders r u))
       (if from_start then [s] else suffixes s)"

definition definitelyNeedChangeset :: "string list" where
  "definitelyNeedChangeset = [''package.json'', ''tsconfig.json'']"

definition isTestFileRegex :: regexp where
  "isTestFileRegex =
     RegExp False
       (Seq DotStar (Seq Dot (Seq (Alt (Str ''examples'') (Str ''test''))
          (Seq Dot (Seq (Alt (Str ''ts'') (Str ''js'')) (Opt (Chr CHR ''x'')))))))
       True"

definition isInSrcFileRegex :: regexp where
  "isInSrcFileRegex = RegExp True (Seq DotStar (Seq (Str ''/src/'') DotStar)) False"

definition isInTestDirRegex :: regexp where
  "isInTestDirRegex =
     RegExp True
       (Seq DotStar (Seq (Str ''/src/'') (Seq DotStar (Seq (Str ''__tests__'') DotStar))))
       False"

text \<open>The predicate passed to \<open>filter\<close> in lines 317-341.\<close>

definition mandatory_changeset_file :: "string \<Rightarrow> bool" where
  "mandatory_changeset_file changedFile =
     (if js_match isInTestDirRegex changedFile \<or> js_match isTestFileRegex changedFile
      then False
      else if list_ex (\<lambda>pattern. endsWith changedFile pattern) definitelyNeedChangeset
              \<or> js_match isInSrcFileRegex changedFile
      then True
      else False)"

text \<open>
  \<open>getChangedPackagesWithMandatoryChangesetSinceCommit\<close>, from the list of files that
  \<open>git.getChangedFilesSince\<close> returned.
\<close>

definition getChangedPackagesWithMandatoryChangeset ::
  "string \<Rightarrow> (string \<Rightarrow> string \<Rightarrow> string) \<Rightarrow> string \<Rightarrow> Workspace list \<Rightarrow> string list
     \<Rightarrow> AFPackageWithRelativeDir list" where
  "getChangedPackagesWithMandatoryChangeset sep relative projectDir workspaces files =
     getChangedPackagesFromChangedFiles sep relative projectDir workspaces
       (filter mandatory_changeset_file files)"

section \<open>Transitive dependencies\<close>

text \<open>
  The dependency graph is a finite \<open>Map\<close> from a package name to the names of its
  dependencies, here an association list read with \<open>map_of\<close>. \<open>visited\<close> is a set in
  insertion order. The state of the loop is \<open>visited\<close>, \<open>queue\<close>,
  \<open>nodesUntilDepthIncrease\<close> and \<open>currentDepth\<close>.
\<close>

type_synonym graph = "(string \<times> string list) list"

datatype walk_error = CannotFindInGraph string

definition depth_tick :: "int \<Rightarrow> int \<Rightarrow> string list \<Rightarrow> int \<times> int" where
  "depth_tick nodesUntilDepthIncrease currentDepth queue =
     (if nodesUntilDepthIncrease - 1 = 0 then (int (length queue), currentDepth + 1)
      else (nodesUntilDepthIncrease - 1, currentDepth))"

function walk ::
  "graph \<Rightarrow> int \<Rightarrow> string list \<times> string list \<times> int \<times> int \<Rightarrow> walk_error + string list" where
  "walk depGraph depth (visited, queue, nodesUntilDepthIncrease, currentDepth) =
     (case queue of
        [] \<Rightarrow> Inr visited
      | currentPkg # rest \<Rightarrow>
          if snd (depth_tick nodesUntilDepthIncrease currentDepth queue) = depth + 1
          then Inr visited
          else if currentPkg \<in> set visited
          then walk depGraph depth
                 (visited, rest,
                  fst (depth_tick nodesUntilDepthIncrease currentDepth queue),
                  snd (depth_tick nodesUntilDepthIncrease currentDepth queue))
          else (case map_of depGraph currentPkg of
                  None \<Rightarrow> Inl (CannotFindInGraph currentPkg)
                | Some deps \<Rightarrow>
                    walk depGraph depth
                      (visited @ [currentPkg], rest @ deps,
                       fst (depth_tick nodesUntilDepthIncrease currentDepth queue),
                       snd (depth_tick nodesUntilDepthIncrease currentDepth queue))))"
  by pat_completeness auto
termination
proof (relation "measures [\<lambda>(g, d, visited, queue, n, c). card (fst ` set g - set visited),
                           \<lambda>(g, d, visited, queue, n, c). length queue]", goal_cases)
  case 1
  show ?case by simp
next
  case (2 depGraph depth visited queue n c currentPkg rest)
  then show ?case by simp
next
  case (3 depGraph depth visited queue n c currentPkg rest deps)
  have fin: "finite (fst ` set depGraph - set visited)" by simp
  have "currentPkg \<in> fst ` set depGraph"
    using 3 by (metis map_of_eq_None_iff option.distinct(1))
  with 3 have "fst ` set depGraph - set (visited @ [currentPkg])
        \<subset> fst ` set depGraph - set visited"
    by auto
  from psubset_card_mono[OF fin this] show ?case by simp
qed

text \<open>
  \<open>depth\<close> is \<open>None\<close> when the caller's options have no \<open>depth\<close>; the default is
  \<open>-100\<close>. The root is removed from the visited set at the end.
\<close>

definition getTransitiveDependencies ::
  "string \<Rightarrow> int option \<Rightarrow> graph \<Rightarrow> walk_error + string list" where
  "getTransitiveDependencies pkgName depth depGraph =
     (case walk depGraph (case depth of None \<Rightarrow> - 100 | Some d \<Rightarrow> d) ([], [pkgName], 1, - 1) of
        Inl e \<Rightarrow> Inl e
      | Inr visited \<Rightarrow> Inr (removeAll pkgName visited))"

text \<open>The edges of a dependency graph.\<close>

definition edges :: "graph \<Rightarrow> (string \<times> string) set" where
  "edges g = {(a, b). \<exists>ds. map_of g a = Some ds \<and> b \<in> set ds}"

text \<open>
  A workspace with its relative directory; \<open>first_match sep workspaces f w\<close> says that
  \<open>w\<close> is the first workspace, in workspace order, whose directory followed by the
  separator is a prefix of \<open>f\<close>; example workspaces, one of them nested in another;
  a stand-in for \<open>path.relative\<close> on a path below the base; and the invariant of the
  reducer's accumulator.
\<close>

definition with_relativeDir ::
  "(string \<Rightarrow> string \<Rightarrow> string) \<Rightarrow> string \<Rightarrow> Workspace \<Rightarrow> AFPackageWithRelativeDir" where
  "with_relativeDir relative projectDir pkg =
     \<lparr>ws_dir = ws_dir pkg, ws_name = ws_name pkg, relativeDir = relative projectDir (ws_dir pkg)\<rparr>"

definition first_match :: "string \<Rightarrow> Workspace list \<Rightarrow> string \<Rightarrow> Workspace \<Rightarrow> bool" where
  "first_match sep workspaces f w =
     (\<exists>before after. workspaces = before @ w # after
        \<and> (\<exists>rest. f = ws_dir w @ sep @ rest)
        \<and> list_all (\<lambda>q. \<not> startsWith f (ws_dir q @ sep)) before)"

definition foo_workspace :: Workspace where
  "foo_workspace = \<lparr>ws_dir = ''packages/foo'', ws_name = ''foo''\<rparr>"

definition outer_workspace :: Workspace where
  "outer_workspace = \<lparr>ws_dir = ''/r/packages/foo'', ws_name = ''foo''\<rparr>"

definition inner_workspace :: Workspace where
  "inner_workspace = \<lparr>ws_dir = ''/r/packages/foo/sub'', ws_name = ''sub''\<rparr>"

definition relative_to :: "string \<Rightarrow> string \<Rightarrow> string" where
  "relative_to a b = drop (Suc (length a)) b"

definition recorded_ok ::
  "string \<Rightarrow> (string \<Rightarrow> string \<Rightarrow> string) \<Rightarrow> string \<Rightarrow> AFPackageWithRelativeDir list
     \<Rightarrow> string set \<Rightarrow> (string \<times> PackageWithChangedFiles) list \<Rightarrow> bool" where
  "recorded_ok sep relative projectDir pkgs F acc =
     (\<forall>(k, e) \<in> set acc. k = ws_name e \<and>
        (\<forall>c \<in> set (changedFiles e). \<exists>f \<in> F. c = relative projectDir f \<and>
           (\<exists>p. fileNameToPackage sep pkgs f = Some p \<and> ws_name p = ws_name e)))"

text \<open>
  A graph is closed when every dependency it names is itself a key. Two small graphs:
  a closed one, and one that names a package it has no entry for.
\<close>

definition closed_graph :: "graph \<Rightarrow> bool" where
  "closed_graph g = (\<forall>a ds. map_of g a = Some ds \<longrightarrow> set ds \<subseteq> dom (map_of g))"

definition chain_graph :: graph where
  "chain_graph = [(''a'', [''b'']), (''b'', [])]"

definition open_graph :: graph where
  "open_graph = [(''a'', [''b''])]"

text \<open>
  The dependents of \<open>d\<close> as a list: for every package in order, for every dependency
  type in order, the entries for \<open>d\<close>. \<open>grows g g' d xs\<close> says that \<open>g'\<close> is \<open>g\<close>
  with \<open>xs\<close> appended to the dependents of \<open>d\<close>.
\<close>

definition edges_from :: "Package \<Rightarrow> string \<Rightarrow> Dependency list" where
  "edges_from pkg d =
     concat (map (\<lambda>dt. map (\<lambda>e. \<lparr>dep_name = name (packageJson pkg), versionRange = snd e,
                                   depType = dt\<rparr>)
                          (filter (\<lambda>e. fst e = d) (entries_of (get_deps dt (packageJson pkg)))))
                 dependencyTypes)"

definition dependents_of :: "Package list \<Rightarrow> string \<Rightarrow> Dependency list" where
  "dependents_of packages d = concat (map (\<lambda>pkg. edges_from pkg d) packages)"

definition current :: "(string \<rightharpoonup> Dependency list) \<Rightarrow> string \<Rightarrow> Dependency list" where
  "current g d = (case g d of None \<Rightarrow> [] | Some ds \<Rightarrow> ds)"

definition grows :: "(string \<rightharpoonup> Dependency list) \<Rightarrow> (string \<rightharpoonup> Dependency list)
     \<Rightarrow> string \<Rightarrow> Dependency list \<Rightarrow> bool" where
  "grows g g' d xs = (g' d = (if xs = [] then g d else Some (current g d @ xs)))"

definition nameless_package :: Package where
  "nameless_package = \<lparr>dir = ''foo/nameless'',
     packageJson = \<lparr>name = None, version = ''1.0.0'', isPrivate = True,
       dependencies = Some [(''@af/package-a'', ''^1.0.0'')],
       devDependencies = None, peerDependencies = None\<rparr>\<rparr>"

text \<open>
  The writes a run performs, as a list computed from the graph and the two lookup maps
  alone: an action \<open>(i, dt, k, v)\<close> sets key \<open>k\<close> of the \<open>dt\<close> map of package
  \<open>i\<close> to \<open>v\<close>. An edge is processed when its dependent is not released and its
  range starts with a caret; it is resolvable when, if processed, its dependent is found
  and has the dependency map of the edge.
\<close>

type_synonym action = "nat \<times> depType \<times> string \<times> string"

definition processed :: "(string option \<rightharpoonup> ComprehensiveRelease) \<Rightarrow> Dependency \<Rightarrow> bool" where
  "processed rbn dep = (not_released rbn dep \<and> startsWith (versionRange dep) ''^'')"

definition dep_actions ::
  "ComprehensiveRelease \<Rightarrow> Dependency list \<Rightarrow> (string option \<rightharpoonup> nat)
     \<Rightarrow> (string option \<rightharpoonup> ComprehensiveRelease) \<Rightarrow> action list" where
  "dep_actions r deps pbn rbn =
     concat (map (\<lambda>dep. if processed rbn dep
                         then (case pbn (dep_name dep) of None \<Rightarrow> []
                               | Some i \<Rightarrow> [(i, depType dep, rel_name r, ''^'' @ newVersion r)])
                         else []) deps)"

definition plan_actions ::
  "ComprehensiveRelease list \<Rightarrow> (string \<rightharpoonup> Dependency list) \<Rightarrow> (string option \<rightharpoonup> nat)
     \<Rightarrow> (string option \<rightharpoonup> ComprehensiveRelease) \<Rightarrow> action list" where
  "plan_actions rs g pbn rbn =
     concat (map (\<lambda>r. if rel_type r = minor
                       then (case g (rel_name r) of None \<Rightarrow> []
                             | Some deps \<Rightarrow> dep_actions r deps pbn rbn)
                       else []) rs)"

definition apply_action :: "action \<Rightarrow> Package list \<Rightarrow> Package list" where
  "apply_action a heap =
     (case a of (i, dt, k, v) \<Rightarrow>
        (case get_deps dt (packageJson (heap ! i)) of
           None \<Rightarrow> heap
         | Some dd \<Rightarrow> write_range i dt dd k v heap))"

definition resolvable ::
  "(string option \<rightharpoonup> nat) \<Rightarrow> (string option \<rightharpoonup> ComprehensiveRelease) \<Rightarrow> Package list
     \<Rightarrow> Dependency \<Rightarrow> bool" where
  "resolvable pbn rbn heap dep =
     (processed rbn dep \<longrightarrow>
        (\<exists>i. pbn (dep_name dep) = Some i \<and> i < length heap
              \<and> get_deps (depType dep) (packageJson (heap ! i)) \<noteq> None))"

text \<open>
  The name of a package; the key-value pairs a list of actions writes to one dependency
  map of one package; and the actions of a run of \<open>main\<close>.
\<close>

definition pkg_name :: "Package \<Rightarrow> string option" where
  "pkg_name p = name (packageJson p)"

definition writes_to :: "nat \<Rightarrow> depType \<Rightarrow> action list \<Rightarrow> (string \<times> string) list" where
  "writes_to i dt acts = map (\<lambda>a. snd (snd a)) (filter (\<lambda>a. fst a = i \<and> fst (snd a) = dt) acts)"

definition main_actions :: "ReleasePlan \<Rightarrow> Package list \<Rightarrow> action list" where
  "main_actions plan packages =
     plan_actions (releases plan) (getDependentsGraph packages) (packagesByName packages)
       (releasesByName (releases plan))"

text \<open>
  Every dependency map of every package has pairwise different keys. The shape of a map
  is its keys with, for each, whether the range starts with a caret; the signature of an
  edge is what the propagator looks at.
\<close>

definition wf_packages :: "Package list \<Rightarrow> bool" where
  "wf_packages ps = (\<forall>p \<in> set ps. \<forall>dt al. get_deps dt (packageJson p) = Some al \<longrightarrow> wf_obj al)"

definition caret :: "string \<Rightarrow> bool" where
  "caret v = startsWith v ''^''"

definition shape :: "obj \<Rightarrow> (string \<times> bool) list" where
  "shape al = map (\<lambda>e. (fst e, caret (snd e))) al"

definition caret_key :: "obj \<Rightarrow> string \<Rightarrow> bool" where
  "caret_key al k = (case map_of al k of None \<Rightarrow> False | Some x \<Rightarrow> caret x)"

definition edge_sig :: "Dependency \<Rightarrow> string option \<times> depType \<times> bool" where
  "edge_sig dep = (dep_name dep, depType dep, caret (versionRange dep))"

text \<open>A string without line terminators.\<close>

definition one_line :: "string \<Rightarrow> bool" where
  "one_line s = list_all (\<lambda>c. \<not> line_terminator c) s"

section \<open>update-min-versions: only minor releases propagate\<close>

lemma release_loop_no_minor:
  "\<forall>r \<in> set rs. rel_type r \<noteq> minor \<Longrightarrow>
   release_loop rs g pbn rbn (upd, heap) = (None, upd, heap)"
  by (induction rs) auto

text \<open>
  Claim C3. When every release of the plan has bump type patch or major, the run
  succeeds, leaves every package as it was, writes no manifest and makes no commit.
\<close>

theorem no_minor_release_no_rewrite:
  assumes "\<forall>r \<in> set (releases releasePlan). rel_type r = patch \<or> rel_type r = major"
  shows "main releasePlan packages = \<lparr>outcome = None, memory = packages, effects = []\<rparr>"
proof -
  have "\<forall>r \<in> set (releases releasePlan). rel_type r \<noteq> minor"
    using assms by auto
  then show ?thesis
    by (simp add: main_def propagate_def release_loop_no_minor)
qed

theorem no_minor_release_no_rewrite_witness:
  "rel_type release_a_patch = patch
   \<and> main \<lparr>releases = [release_a_patch]\<rparr> test_packages
       = \<lparr>outcome = None, memory = test_packages, effects = []\<rparr>"
  using no_minor_release_no_rewrite [of "\<lparr>releases = [release_a_patch]\<rparr>" test_packages]
  by (simp add: release_a_patch_def)

section \<open>Changed packages: resolution and the ratchet file\<close>

lemma startsWith_iff: "startsWith s p = (\<exists>rest. s = p @ rest)"
  unfolding startsWith_def
  by (metis append_eq_conv_conj append_take_drop_id)

lemma indexOf_less: "x \<in> set xs \<Longrightarrow> indexOf xs x < length xs"
proof -
  assume x: "x \<in> set xs"
  have "takeWhile (\<lambda>y. y \<noteq> x) xs \<noteq> xs"
    using x by (auto simp: takeWhile_eq_all_conv)
  moreover have "length (takeWhile (\<lambda>y. y \<noteq> x) xs) \<le> length xs"
    by (rule length_takeWhile_le)
  ultimately show ?thesis
    unfolding indexOf_def
    by (metis le_neq_implies_less takeWhile_eq_take take_all_iff order_refl)
qed

lemma indexOf_nth: "x \<in> set xs \<Longrightarrow> xs ! indexOf xs x = x"
  using nth_length_takeWhile[of "\<lambda>y. y \<noteq> x" xs] indexOf_less[of x xs]
  unfolding indexOf_def by simp

lemma set_first_occurrences:
  "set (map fst (filter (\<lambda>(x, idx). indexOf xs x = idx) (zip xs [0..<length xs]))) = set xs"
proof
  show "set (map fst (filter (\<lambda>(x, idx). indexOf xs x = idx) (zip xs [0..<length xs]))) \<subseteq> set xs"
    by (auto dest: set_zip_leftD)
  show "set xs \<subseteq> set (map fst (filter (\<lambda>(x, idx). indexOf xs x = idx) (zip xs [0..<length xs])))"
  proof
    fix x assume x: "x \<in> set xs"
    have "(x, indexOf xs x) \<in> set (zip xs [0..<length xs])"
      unfolding set_zip using indexOf_less[OF x] indexOf_nth[OF x]
      by (intro CollectI exI[of _ "indexOf xs x"]) simp
    then have "(x, indexOf xs x) \<in> set (filter (\<lambda>(x, idx). indexOf xs x = idx) (zip xs [0..<length xs]))"
      by simp
    then show "x \<in> set (map fst (filter (\<lambda>(x, idx). indexOf xs x = idx) (zip xs [0..<length xs])))"
      by (metis fst_conv image_eqI set_map)
  qed
qed

lemma set_map_the_defined:
  "set (map the (filter isDefined (map g xs))) = {p. \<exists>f \<in> set xs. g f = Some p}"
proof (induction xs)
  case Nil
  show ?case by simp
next
  case (Cons x xs)
  show ?case
  proof (cases "g x")
    case None
    then show ?thesis using Cons by (auto simp: isDefined_def)
  next
    case (Some y)
    then show ?thesis using Cons by (auto simp: isDefined_def)
  qed
qed

lemma set_getChangedPackagesFromChangedFiles:
  "set (getChangedPackagesFromChangedFiles sep relative projectDir workspaces files) =
   {p. \<exists>f \<in> set files. not_ratchet f \<and>
        fileNameToPackage sep (allPackages relative projectDir workspaces) f = Some p}"
  unfolding getChangedPackagesFromChangedFiles_def Let_def set_first_occurrences
    set_map_the_defined
  by auto


lemma in_set_update:
  "x \<in> set (AList.update k v al) \<Longrightarrow> x = (k, v) \<or> x \<in> set al"
  by (induction al) (auto split: if_splits)

lemma recorded_ok_mono: "recorded_ok s r d pkgs F acc \<Longrightarrow> F \<subseteq> G \<Longrightarrow> recorded_ok s r d pkgs G acc"
  unfolding recorded_ok_def by blast

lemma recorded_ok_step:
  assumes "recorded_ok s r d pkgs F acc"
  shows "recorded_ok s r d pkgs (insert f F) (add_changed_file s r d pkgs f acc)"
proof (cases "fileNameToPackage s pkgs f")
  case None
  have "recorded_ok s r d pkgs (insert f F) acc"
    using recorded_ok_mono[OF assms, of "insert f F"] by blast
  then show ?thesis
    using None by (simp add: add_changed_file_def)
next
  case (Some p)
  note p = this
  have mono: "recorded_ok s r d pkgs (insert f F) acc"
    using recorded_ok_mono[OF assms, of "insert f F"] by blast
  show ?thesis
  proof (cases "ws_name p = []")
    case True
    then show ?thesis using mono p by (simp add: add_changed_file_def Let_def)
  next
    case False
    show ?thesis
    proof (cases "map_of acc (ws_name p)")
      case None
      have "add_changed_file s r d pkgs f acc =
            AList.update (ws_name p) \<lparr>ws_dir = ws_dir p, ws_name = ws_name p,
               relativeDir = relativeDir p, changedFiles = [r d f]\<rparr> acc"
        using p False None by (simp add: add_changed_file_def Let_def)
      then show ?thesis
        using mono p unfolding recorded_ok_def
        by (auto dest!: in_set_update)
    next
      case (Some entry)
      then have mem: "(ws_name p, entry) \<in> set acc" by (rule map_of_SomeD)
      have "add_changed_file s r d pkgs f acc =
            AList.update (ws_name p) (entry\<lparr>changedFiles := changedFiles entry @ [r d f]\<rparr>) acc"
        using p False Some by (simp add: add_changed_file_def Let_def)
      moreover have old: "ws_name p = ws_name entry \<and>
        (\<forall>c \<in> set (changedFiles entry). \<exists>f' \<in> insert f F. c = r d f' \<and>
           (\<exists>q. fileNameToPackage s pkgs f' = Some q \<and> ws_name q = ws_name entry))"
        using mono mem unfolding recorded_ok_def by fast
      moreover have "r d f = r d f \<and> (\<exists>q. fileNameToPackage s pkgs f = Some q
           \<and> ws_name q = ws_name entry)"
        using p old by simp
      ultimately show ?thesis
        using mono unfolding recorded_ok_def
        by (auto dest!: in_set_update)
    qed
  qed
qed

lemma recorded_ok_fold:
  "recorded_ok s r d pkgs F acc \<Longrightarrow>
   recorded_ok s r d pkgs (F \<union> set fs) (fold (add_changed_file s r d pkgs) fs acc)"
proof (induction fs arbitrary: F acc)
  case Nil
  then show ?case by simp
next
  case (Cons f fs)
  from Cons.IH[OF recorded_ok_step[OF Cons.prems, of f]] show ?case by simp
qed

text \<open>
  Claim C10. Files whose path ends with \<open>bundle-size-ratchet.json\<close> are dropped
  before resolution in both functions: the result is the one obtained without these
  files, every package returned comes from a file that does not end so, and so does every
  recorded changed file.
\<close>

theorem ratchet_files_discarded:
  "getChangedPackagesFromChangedFiles sep relative projectDir workspaces files
     = getChangedPackagesFromChangedFiles sep relative projectDir workspaces
         (filter (\<lambda>f. \<not> endsWith f ''bundle-size-ratchet.json'') files)
   \<and> getChangedPackagesWithChangedFiles sep relative projectDir workspaces files
     = getChangedPackagesWithChangedFiles sep relative projectDir workspaces
         (filter (\<lambda>f. \<not> endsWith f ''bundle-size-ratchet.json'') files)
   \<and> (\<forall>p \<in> set (getChangedPackagesFromChangedFiles sep relative projectDir workspaces files).
         \<exists>f \<in> set files. \<not> endsWith f ''bundle-size-ratchet.json'' \<and>
           fileNameToPackage sep (allPackages relative projectDir workspaces) f = Some p)
   \<and> (\<forall>e \<in> set (getChangedPackagesWithChangedFiles sep relative projectDir workspaces files).
         \<forall>c \<in> set (changedFiles e).
           \<exists>f \<in> set files. \<not> endsWith f ''bundle-size-ratchet.json'' \<and>
             c = relative projectDir f \<and>
             (\<exists>p. fileNameToPackage sep (allPackages relative projectDir workspaces) f = Some p
                  \<and> ws_name p = ws_name e))"
proof (intro conjI)
  have "not_ratchet = (\<lambda>f. \<not> endsWith f ''bundle-size-ratchet.json'')"
    by (rule ext) (simp add: not_ratchet_def)
  then have ff: "filter not_ratchet (filter (\<lambda>f. \<not> endsWith f ''bundle-size-ratchet.json'') files)
            = filter not_ratchet files"
    by simp
  show "getChangedPackagesFromChangedFiles sep relative projectDir workspaces files
     = getChangedPackagesFromChangedFiles sep relative projectDir workspaces
         (filter (\<lambda>f. \<not> endsWith f ''bundle-size-ratchet.json'') files)"
    unfolding getChangedPackagesFromChangedFiles_def ff ..
  show "getChangedPackagesWithChangedFiles sep relative projectDir workspaces files
     = getChangedPackagesWithChangedFiles sep relative projectDir workspaces
         (filter (\<lambda>f. \<not> endsWith f ''bundle-size-ratchet.json'') files)"
    unfolding getChangedPackagesWithChangedFiles_def ff ..
  show "\<forall>p \<in> set (getChangedPackagesFromChangedFiles sep relative projectDir workspaces files).
         \<exists>f \<in> set files. \<not> endsWith f ''bundle-size-ratchet.json'' \<and>
           fileNameToPackage sep (allPackages relative projectDir workspaces) f = Some p"
    unfolding set_getChangedPackagesFromChangedFiles by (auto simp: not_ratchet_def)
  have "recorded_ok sep relative projectDir (allPackages relative projectDir workspaces) {} []"
    by (simp add: recorded_ok_def)
  from recorded_ok_fold[OF this, of "filter not_ratchet files"]
  show "\<forall>e \<in> set (getChangedPackagesWithChangedFiles sep relative projectDir workspaces files).
         \<forall>c \<in> set (changedFiles e).
           \<exists>f \<in> set files. \<not> endsWith f ''bundle-size-ratchet.json'' \<and>
             c = relative projectDir f \<and>
             (\<exists>p. fileNameToPackage sep (allPackages relative projectDir workspaces) f = Some p
                  \<and> ws_name p = ws_name e)"
    unfolding getChangedPackagesWithChangedFiles_def Let_def recorded_ok_def
    by (fastforce simp: not_ratchet_def)
qed


theorem ratchet_files_discarded_witness:
  "getChangedPackagesFromChangedFiles ''/'' (\<lambda>a b. drop (Suc (length a)) b) ''/r''
     [\<lparr>ws_dir = ''/r/packages/foo'', ws_name = ''foo''\<rparr>]
     [''/r/packages/foo/bundle-size-ratchet.json'']
   = getChangedPackagesFromChangedFiles ''/'' (\<lambda>a b. drop (Suc (length a)) b) ''/r''
     [\<lparr>ws_dir = ''/r/packages/foo'', ws_name = ''foo''\<rparr>] []"
  using ratchet_files_discarded [of "''/''" "\<lambda>a b. drop (Suc (length a)) b" "''/r''"
          "[\<lparr>ws_dir = ''/r/packages/foo'', ws_name = ''foo''\<rparr>]"
          "[''/r/packages/foo/bundle-size-ratchet.json'']"]
  by (simp add: endsWith_def)

lemma allPackages_map:
  "allPackages relative projectDir workspaces = map (with_relativeDir relative projectDir) workspaces"
  by (simp add: allPackages_def with_relativeDir_def)

lemma find_allPackages:
  "fileNameToPackage sep (allPackages relative projectDir workspaces) f =
   map_option (with_relativeDir relative projectDir)
     (find (\<lambda>w. startsWith f (ws_dir w @ sep)) workspaces)"
  unfolding allPackages_map fileNameToPackage_def
  by (induction workspaces) (simp_all add: with_relativeDir_def)

lemma find_first_match:
  "(find (\<lambda>w. startsWith f (ws_dir w @ sep)) workspaces = Some w) = first_match sep workspaces f w"
proof (induction workspaces)
  case Nil
  show ?case by (simp add: first_match_def)
next
  case (Cons x xs)
  show ?case
  proof (cases "startsWith f (ws_dir x @ sep)")
    case True
    have "first_match sep (x # xs) f w = (x = w)"
    proof
      assume "first_match sep (x # xs) f w"
      then obtain before after where b: "x # xs = before @ w # after"
          "list_all (\<lambda>q. \<not> startsWith f (ws_dir q @ sep)) before"
        unfolding first_match_def by blast
      show "x = w"
      proof (cases before)
        case Nil
        then show ?thesis using b(1) by simp
      next
        case (Cons y ys)
        then have "y = x" using b(1) by simp
        then show ?thesis using b(2) Cons True by simp
      qed
    next
      assume "x = w"
      then have "x # xs = [] @ w # xs \<and> (\<exists>rest. f = ws_dir w @ sep @ rest)
          \<and> list_all (\<lambda>q. \<not> startsWith f (ws_dir q @ sep)) []"
        using True by (simp add: startsWith_iff)
      then show "first_match sep (x # xs) f w"
        unfolding first_match_def by blast
    qed
    then show ?thesis using True by simp
  next
    case False
    have "first_match sep (x # xs) f w = first_match sep xs f w"
    proof
      assume "first_match sep (x # xs) f w"
      then obtain before after where b: "x # xs = before @ w # after"
          "\<exists>rest. f = ws_dir w @ sep @ rest"
          "list_all (\<lambda>q. \<not> startsWith f (ws_dir q @ sep)) before"
        unfolding first_match_def by blast
      show "first_match sep xs f w"
      proof (cases before)
        case Nil
        then have "x = w" using b(1) by simp
        then show ?thesis using b(2) False by (simp add: startsWith_iff)
      next
        case (Cons y ys)
        then have "xs = ys @ w # after" "list_all (\<lambda>q. \<not> startsWith f (ws_dir q @ sep)) ys"
          using b(1,3) by simp_all
        then show ?thesis unfolding first_match_def using b(2) by blast
      qed
    next
      assume "first_match sep xs f w"
      then obtain before after where b: "xs = before @ w # after"
          "\<exists>rest. f = ws_dir w @ sep @ rest"
          "list_all (\<lambda>q. \<not> startsWith f (ws_dir q @ sep)) before"
        unfolding first_match_def by blast
      have "x # xs = (x # before) @ w # after"
        "list_all (\<lambda>q. \<not> startsWith f (ws_dir q @ sep)) (x # before)"
        using b(1,3) False by simp_all
      then show "first_match sep (x # xs) f w"
        unfolding first_match_def using b(2) by blast
    qed
    then show ?thesis using False Cons.IH by simp
  qed
qed

lemma resolves_iff_first_match:
  "(fileNameToPackage sep (allPackages relative projectDir workspaces) f = Some p) =
   (\<exists>w. first_match sep workspaces f w \<and> p = with_relativeDir relative projectDir w)"
  unfolding find_allPackages find_first_match[symmetric] by auto


lemma resolves_None_iff:
  "(fileNameToPackage sep (allPackages relative projectDir workspaces) f = None) =
   (\<forall>w \<in> set workspaces. \<not> (\<exists>rest. f = ws_dir w @ sep @ rest))"
  unfolding find_allPackages by (auto simp: find_None_iff startsWith_iff)

text \<open>
  Claim C8, as amended. Resolution matches on full path segments: a file resolves to the
  first workspace, in workspace order, whose directory followed by the path separator is a
  prefix of the file path, and to none when there is no such workspace. Both exported
  functions resolve files so. In particular \<open>packages/foo-bar/src/index.ts\<close> does not
  resolve to the workspace in \<open>packages/foo\<close>, and \<open>packages/foo/src/index.ts\<close>
  does.
\<close>

theorem file_resolves_to_first_matching_workspace:
  "((fileNameToPackage sep (allPackages relative projectDir workspaces) f = Some p)
      = (\<exists>w. first_match sep workspaces f w \<and> p = with_relativeDir relative projectDir w))
   \<and> ((fileNameToPackage sep (allPackages relative projectDir workspaces) f = None)
      = (\<forall>w \<in> set workspaces. \<not> (\<exists>rest. f = ws_dir w @ sep @ rest)))
   \<and> set (getChangedPackagesFromChangedFiles sep relative projectDir workspaces files)
      = {p. \<exists>f \<in> set files. \<not> endsWith f ''bundle-size-ratchet.json''
            \<and> (\<exists>w. first_match sep workspaces f w
                    \<and> p = with_relativeDir relative projectDir w)}
   \<and> (\<forall>e \<in> set (getChangedPackagesWithChangedFiles sep relative projectDir workspaces files).
         \<forall>c \<in> set (changedFiles e).
           \<exists>f \<in> set files. c = relative projectDir f
             \<and> (\<exists>w. first_match sep workspaces f w \<and> ws_name w = ws_name e))
   \<and> getChangedPackagesFromChangedFiles ''/'' relative projectDir [foo_workspace]
         [''packages/foo-bar/src/index.ts''] = []
   \<and> getChangedPackagesFromChangedFiles ''/'' relative projectDir [foo_workspace]
         [''packages/foo/src/index.ts''] = [with_relativeDir relative projectDir foo_workspace]
   \<and> getChangedPackagesWithChangedFiles ''/'' relative projectDir [foo_workspace]
         [''packages/foo-bar/src/index.ts''] = []
   \<and> getChangedPackagesWithChangedFiles ''/'' relative projectDir [foo_workspace]
         [''packages/foo/src/index.ts'']
       = [\<lparr>ws_dir = ''packages/foo'', ws_name = ''foo'',
           relativeDir = relative projectDir ''packages/foo'',
           changedFiles = [relative projectDir ''packages/foo/src/index.ts'']\<rparr>]"
proof (intro conjI)
  show "(fileNameToPackage sep (allPackages relative projectDir workspaces) f = Some p)
      = (\<exists>w. first_match sep workspaces f w \<and> p = with_relativeDir relative projectDir w)"
    by (rule resolves_iff_first_match)
  show "(fileNameToPackage sep (allPackages relative projectDir workspaces) f = None)
      = (\<forall>w \<in> set workspaces. \<not> (\<exists>rest. f = ws_dir w @ sep @ rest))"
    by (rule resolves_None_iff)
  show "set (getChangedPackagesFromChangedFiles sep relative projectDir workspaces files)
      = {p. \<exists>f \<in> set files. \<not> endsWith f ''bundle-size-ratchet.json''
            \<and> (\<exists>w. first_match sep workspaces f w
                    \<and> p = with_relativeDir relative projectDir w)}"
    unfolding set_getChangedPackagesFromChangedFiles resolves_iff_first_match not_ratchet_def ..
  have "recorded_ok sep relative projectDir (allPackages relative projectDir workspaces) {} []"
    by (simp add: recorded_ok_def)
  from recorded_ok_fold[OF this, of "filter not_ratchet files"]
  have "\<forall>e \<in> set (getChangedPackagesWithChangedFiles sep relative projectDir workspaces files).
         \<forall>c \<in> set (changedFiles e).
           \<exists>f \<in> set files. c = relative projectDir f \<and>
             (\<exists>p. fileNameToPackage sep (allPackages relative projectDir workspaces) f = Some p
                  \<and> ws_name p = ws_name e)"
    unfolding getChangedPackagesWithChangedFiles_def Let_def recorded_ok_def
    by fastforce
  then show "\<forall>e \<in> set (getChangedPackagesWithChangedFiles sep relative projectDir workspaces files).
         \<forall>c \<in> set (changedFiles e).
           \<exists>f \<in> set files. c = relative projectDir f
             \<and> (\<exists>w. first_match sep workspaces f w \<and> ws_name w = ws_name e)"
    unfolding resolves_iff_first_match by (fastforce simp: with_relativeDir_def)
  show "getChangedPackagesFromChangedFiles ''/'' relative projectDir [foo_workspace]
         [''packages/foo-bar/src/index.ts''] = []"
    by (simp add: getChangedPackagesFromChangedFiles_def allPackages_def fileNameToPackage_def
          startsWith_def not_ratchet_def endsWith_def isDefined_def foo_workspace_def)
  show "getChangedPackagesFromChangedFiles ''/'' relative projectDir [foo_workspace]
         [''packages/foo/src/index.ts''] = [with_relativeDir relative projectDir foo_workspace]"
    by (simp add: getChangedPackagesFromChangedFiles_def allPackages_def fileNameToPackage_def
          startsWith_def not_ratchet_def endsWith_def isDefined_def foo_workspace_def
          with_relativeDir_def indexOf_def)
  show "getChangedPackagesWithChangedFiles ''/'' relative projectDir [foo_workspace]
         [''packages/foo-bar/src/index.ts''] = []"
    by (simp add: getChangedPackagesWithChangedFiles_def allPackages_def fileNameToPackage_def
          startsWith_def not_ratchet_def endsWith_def foo_workspace_def add_changed_file_def)
  show "getChangedPackagesWithChangedFiles ''/'' relative projectDir [foo_workspace]
         [''packages/foo/src/index.ts'']
       = [\<lparr>ws_dir = ''packages/foo'', ws_name = ''foo'',
           relativeDir = relative projectDir ''packages/foo'',
           changedFiles = [relative projectDir ''packages/foo/src/index.ts'']\<rparr>]"
    by (simp add: getChangedPackagesWithChangedFiles_def allPackages_def fileNameToPackage_def
          startsWith_def not_ratchet_def endsWith_def foo_workspace_def add_changed_file_def
          Let_def)
qed

lemma outer_first_match:
  "first_match ''/'' [outer_workspace, inner_workspace] ''/r/packages/foo/sub/y.ts'' outer_workspace"
proof -
  have "[outer_workspace, inner_workspace] = [] @ outer_workspace # [inner_workspace]
        \<and> (\<exists>rest. ''/r/packages/foo/sub/y.ts'' = ws_dir outer_workspace @ ''/'' @ rest)
        \<and> list_all (\<lambda>q. \<not> startsWith ''/r/packages/foo/sub/y.ts'' (ws_dir q @ ''/'')) []"
    by (simp add: outer_workspace_def)
  then show ?thesis unfolding first_match_def by blast
qed

theorem file_resolves_to_first_matching_workspace_witness:
  "first_match ''/'' [outer_workspace, inner_workspace] ''/r/packages/foo/sub/y.ts'' outer_workspace
   \<and> fileNameToPackage ''/'' (allPackages relative_to ''/r'' [outer_workspace, inner_workspace])
        ''/r/packages/foo/sub/y.ts''
      = Some (with_relativeDir relative_to ''/r'' outer_workspace)"
  using file_resolves_to_first_matching_workspace
          [of "''/''" relative_to "''/r''" "[outer_workspace, inner_workspace]"
              "''/r/packages/foo/sub/y.ts''" "with_relativeDir relative_to ''/r'' outer_workspace"]
        outer_first_match
  by blast

text \<open>
  Claim C8 as stated fails when one workspace directory lies inside another: the
  directory of the inner workspace followed by the separator is a prefix of the file, yet
  the file resolves to the outer workspace, which comes first.
\<close>

theorem nested_workspace_counterexample:
  "(\<exists>rest. ''/r/packages/foo/sub/y.ts'' = ws_dir inner_workspace @ ''/'' @ rest)
   \<and> getChangedPackagesFromChangedFiles ''/'' relative_to ''/r''
        [outer_workspace, inner_workspace] [''/r/packages/foo/sub/y.ts'']
      = [\<lparr>ws_dir = ''/r/packages/foo'', ws_name = ''foo'', relativeDir = ''packages/foo''\<rparr>]
   \<and> map ws_name (getChangedPackagesWithChangedFiles ''/'' relative_to ''/r''
        [outer_workspace, inner_workspace] [''/r/packages/foo/sub/y.ts'']) = [''foo'']"
  by (simp add: getChangedPackagesFromChangedFiles_def getChangedPackagesWithChangedFiles_def
        allPackages_def fileNameToPackage_def add_changed_file_def
        startsWith_def not_ratchet_def endsWith_def isDefined_def indexOf_def relative_to_def
        outer_workspace_def inner_workspace_def Let_def)

section \<open>Changed packages: the mandatory-changeset filter\<close>

lemma dotstar_remainders_suffix: "t \<in> set (dotstar_remainders s) \<Longrightarrow> suffix t s"
  by (induction s) (auto split: if_splits intro: suffix_ConsI)

lemma remainders_suffix: "t \<in> set (remainders r s) \<Longrightarrow> suffix t s"
proof (induction r arbitrary: s t)
  case (Seq r1 r2)
  then obtain u where "u \<in> set (remainders r1 s)" "t \<in> set (remainders r2 u)" by auto
  then show ?case using Seq.IH by (blast intro: suffix_order.trans)
qed (auto split: list.splits if_splits intro: suffix_ConsI dotstar_remainders_suffix)

lemma remainders_SeqD:
  "t \<in> set (remainders (Seq r1 r2) s) \<Longrightarrow>
   \<exists>u. suffix u s \<and> t \<in> set (remainders r2 u)"
  using remainders_suffix by auto

lemma script_extension:
  "[] \<in> set (remainders (Seq (Alt (Str ''ts'') (Str ''js'')) (Opt (Chr CHR ''x''))) t) \<Longrightarrow>
   t \<in> {''ts'', ''tsx'', ''js'', ''jsx''}"
  by (auto split: list.splits if_splits)

lemma isTestFileRegex_ends:
  assumes "js_match isTestFileRegex f"
  shows "\<exists>e \<in> {''ts'', ''tsx'', ''js'', ''jsx''}. suffix e f"
proof -
  from assms obtain u where u: "u \<in> set (suffixes f)"
    and m: "[] \<in> set (remainders (Seq DotStar (Seq Dot (Seq (Alt (Str ''examples'') (Str ''test''))
          (Seq Dot (Seq (Alt (Str ''ts'') (Str ''js'')) (Opt (Chr CHR ''x''))))))) u)"
    unfolding isTestFileRegex_def js_match.simps list_ex_iff if_False simp_thms by blast
  from remainders_SeqD[OF m] obtain u1 where u1: "suffix u1 u"
    "[] \<in> set (remainders (Seq Dot (Seq (Alt (Str ''examples'') (Str ''test''))
          (Seq Dot (Seq (Alt (Str ''ts'') (Str ''js'')) (Opt (Chr CHR ''x'')))))) u1)" by blast
  from remainders_SeqD[OF u1(2)] obtain u2 where u2: "suffix u2 u1"
    "[] \<in> set (remainders (Seq (Alt (Str ''examples'') (Str ''test''))
          (Seq Dot (Seq (Alt (Str ''ts'') (Str ''js'')) (Opt (Chr CHR ''x''))))) u2)" by blast
  from remainders_SeqD[OF u2(2)] obtain u3 where u3: "suffix u3 u2"
    "[] \<in> set (remainders (Seq Dot (Seq (Alt (Str ''ts'') (Str ''js'')) (Opt (Chr CHR ''x'')))) u3)" by blast
  from remainders_SeqD[OF u3(2)] obtain u4 where u4: "suffix u4 u3"
    "[] \<in> set (remainders (Seq (Alt (Str ''ts'') (Str ''js'')) (Opt (Chr CHR ''x''))) u4)" by blast
  have "suffix u f" using u by (simp add: in_set_suffixes)
  then have "suffix u4 f"
    using u1(1) u2(1) u3(1) u4(1) by (meson suffix_order.trans)
  with script_extension[OF u4(2)] show ?thesis by blast
qed

lemma endsWith_suffix: "endsWith s p = suffix p s"
  unfolding endsWith_def suffix_def
  by (metis append_eq_conv_conj append_take_drop_id diff_add_inverse2 length_append le_add2)

lemma privileged_not_test_file:
  assumes "endsWith f ''package.json'' \<or> endsWith f ''tsconfig.json''"
  shows "\<not> js_match isTestFileRegex f"
proof
  assume "js_match isTestFileRegex f"
  from isTestFileRegex_ends[OF this] obtain e where e: "e \<in> {''ts'', ''tsx'', ''js'', ''jsx''}" "suffix e f"
    by blast
  then have "last f = CHR ''s'' \<or> last f = CHR ''x''"
    by (auto simp: suffix_def)
  moreover have "last f = CHR ''n''"
    using assms by (auto simp: endsWith_suffix suffix_def)
  ultimately show False by simp
qed

lemma in_dotstar_remainders:
  "u \<in> set (dotstar_remainders s) = (\<exists>a. s = a @ u \<and> one_line a)"
proof (induction s)
  case Nil
  show ?case by (auto simp: one_line_def)
next
  case (Cons c cs)
  show ?case
  proof
    assume "u \<in> set (dotstar_remainders (c # cs))"
    then consider "u = c # cs" | "\<not> line_terminator c" "u \<in> set (dotstar_remainders cs)"
      by (auto split: if_splits)
    then show "\<exists>a. c # cs = a @ u \<and> one_line a"
    proof cases
      case 1
      then have "c # cs = [] @ u \<and> one_line []" by (simp add: one_line_def)
      then show ?thesis by blast
    next
      case 2
      then obtain a where "cs = a @ u" "one_line a" using Cons.IH by blast
      then have "c # cs = (c # a) @ u \<and> one_line (c # a)"
        using 2(1) by (simp add: one_line_def)
      then show ?thesis by blast
    qed
  next
    assume "\<exists>a. c # cs = a @ u \<and> one_line a"
    then obtain a where a: "c # cs = a @ u" "one_line a" by blast
    show "u \<in> set (dotstar_remainders (c # cs))"
    proof (cases a)
      case Nil
      then have "u = c # cs" using a(1) by simp
      then show ?thesis by simp
    next
      case (Cons x a')
      then have "x = c" "cs = a' @ u" "\<not> line_terminator c" "one_line a'"
        using a by (simp_all add: one_line_def)
      then show ?thesis using Cons.IH by auto
    qed
  qed
qed

lemma in_remainders_Str: "t \<in> set (remainders (Str w) u) = (u = w @ t)"
  by (induction w arbitrary: u) (auto split: list.splits)

lemma in_remainders_Seq:
  "t \<in> set (remainders (Seq r1 r2) s) =
   (\<exists>u \<in> set (remainders r1 s). t \<in> set (remainders r2 u))"
  by auto

lemma isInTestDirRegex_iff:
  "js_match isInTestDirRegex f =
   (\<exists>a b rest. f = a @ ''/src/'' @ b @ ''__tests__'' @ rest \<and> one_line a \<and> one_line b)"
proof -
  have "js_match isInTestDirRegex f =
        (\<exists>t. t \<in> set (remainders (Seq DotStar (Seq (Str ''/src/'') (Seq DotStar
                 (Seq (Str ''__tests__'') DotStar)))) f))"
    unfolding isInTestDirRegex_def js_match.simps list_ex_iff by auto
  also have "\<dots> = (\<exists>t a b c. f = a @ ''/src/'' @ b @ ''__tests__'' @ c @ t
                        \<and> one_line a \<and> one_line b \<and> one_line c)"
  proof
    assume "\<exists>t. t \<in> set (remainders (Seq DotStar (Seq (Str ''/src/'') (Seq DotStar
                 (Seq (Str ''__tests__'') DotStar)))) f)"
    then obtain t u1 u2 u3 u4 where u: "u1 \<in> set (dotstar_remainders f)"
        "u2 \<in> set (remainders (Str ''/src/'') u1)" "u3 \<in> set (dotstar_remainders u2)"
        "u4 \<in> set (remainders (Str ''__tests__'') u3)" "t \<in> set (dotstar_remainders u4)"
      unfolding in_remainders_Seq remainders.simps(4) by blast
    from u(1) obtain a where a: "f = a @ u1" "one_line a"
      unfolding in_dotstar_remainders by blast
    from u(3) obtain b where b: "u2 = b @ u3" "one_line b"
      unfolding in_dotstar_remainders by blast
    from u(5) obtain c where c: "u4 = c @ t" "one_line c"
      unfolding in_dotstar_remainders by blast
    have "u1 = ''/src/'' @ u2" "u3 = ''__tests__'' @ u4"
      using u(2,4) unfolding in_remainders_Str by simp_all
    then have "f = a @ ''/src/'' @ b @ ''__tests__'' @ c @ t"
      using a(1) b(1) c(1) by simp
    then show "\<exists>t a b c. f = a @ ''/src/'' @ b @ ''__tests__'' @ c @ t
                        \<and> one_line a \<and> one_line b \<and> one_line c"
      using a(2) b(2) c(2) by blast
  next
    assume "\<exists>t a b c. f = a @ ''/src/'' @ b @ ''__tests__'' @ c @ t
                        \<and> one_line a \<and> one_line b \<and> one_line c"
    then obtain t a b c where f: "f = a @ ''/src/'' @ b @ ''__tests__'' @ c @ t"
        "one_line a" "one_line b" "one_line c" by blast
    have 1: "''/src/'' @ b @ ''__tests__'' @ c @ t \<in> set (dotstar_remainders f)"
      unfolding in_dotstar_remainders using f(1,2) by blast
    have 2: "b @ ''__tests__'' @ c @ t
             \<in> set (remainders (Str ''/src/'') (''/src/'' @ b @ ''__tests__'' @ c @ t))"
      unfolding in_remainders_Str by simp
    have 3: "''__tests__'' @ c @ t \<in> set (dotstar_remainders (b @ ''__tests__'' @ c @ t))"
      unfolding in_dotstar_remainders using f(3) by blast
    have 4: "c @ t \<in> set (remainders (Str ''__tests__'') (''__tests__'' @ c @ t))"
      unfolding in_remainders_Str by simp
    have 5: "t \<in> set (dotstar_remainders (c @ t))"
      unfolding in_dotstar_remainders using f(4) by blast
    show "\<exists>t. t \<in> set (remainders (Seq DotStar (Seq (Str ''/src/'') (Seq DotStar
                 (Seq (Str ''__tests__'') DotStar)))) f)"
      unfolding in_remainders_Seq remainders.simps(4) using 1 2 3 4 5 by blast
  qed
  also have "\<dots> = (\<exists>a b rest. f = a @ ''/src/'' @ b @ ''__tests__'' @ rest
                        \<and> one_line a \<and> one_line b)"
  proof
    assume "\<exists>t a b c. f = a @ ''/src/'' @ b @ ''__tests__'' @ c @ t
                        \<and> one_line a \<and> one_line b \<and> one_line c"
    then show "\<exists>a b rest. f = a @ ''/src/'' @ b @ ''__tests__'' @ rest
                        \<and> one_line a \<and> one_line b" by blast
  next
    assume "\<exists>a b rest. f = a @ ''/src/'' @ b @ ''__tests__'' @ rest
                        \<and> one_line a \<and> one_line b"
    then obtain a b rest where "f = a @ ''/src/'' @ b @ ''__tests__'' @ [] @ rest"
      "one_line a" "one_line b" "one_line []" by (auto simp: one_line_def)
    then show "\<exists>t a b c. f = a @ ''/src/'' @ b @ ''__tests__'' @ c @ t
                        \<and> one_line a \<and> one_line b \<and> one_line c" by blast
  qed
  finally show ?thesis .
qed

text \<open>
  Claim C6, as amended. A changed file whose path ends with \<open>package.json\<close> or
  \<open>tsconfig.json\<close> is kept by the filter exactly when it does not match the
  test-directory pattern \<open>^.*/src/.*__tests__.*\<close>, that is, unless its path has
  \<open>/src/\<close> and later \<open>__tests__\<close> with no line terminator before them; it never
  matches the test-file pattern, and it is kept whether or not it lies under \<open>/src/\<close>.
\<close>

theorem privileged_file_kept_outside_test_dir:
  assumes "endsWith f ''package.json'' \<or> endsWith f ''tsconfig.json''"
  shows "mandatory_changeset_file f = (\<not> js_match isInTestDirRegex f)
     \<and> js_match isInTestDirRegex f
         = (\<exists>a b rest. f = a @ ''/src/'' @ b @ ''__tests__'' @ rest \<and> one_line a \<and> one_line b)"
proof
  show "mandatory_changeset_file f = (\<not> js_match isInTestDirRegex f)"
    using privileged_not_test_file[OF assms] assms
    by (auto simp: mandatory_changeset_file_def definitelyNeedChangeset_def)
  show "js_match isInTestDirRegex f
         = (\<exists>a b rest. f = a @ ''/src/'' @ b @ ''__tests__'' @ rest \<and> one_line a \<and> one_line b)"
    by (rule isInTestDirRegex_iff)
qed

lemma test_dir_example:
  "js_match isInTestDirRegex ''packages/foo/src/__tests__/package.json''"
  by (simp add: isInTestDirRegex_def line_terminator_def)

text \<open>
  Claim C6 as stated fails: a \<open>package.json\<close> under \<open>src/__tests__\<close> is
  filtered out, because the test-directory check comes first.
\<close>

theorem privileged_file_counterexample:
  "endsWith ''packages/foo/src/__tests__/package.json'' ''package.json''
   \<and> \<not> mandatory_changeset_file ''packages/foo/src/__tests__/package.json''"
  using test_dir_example by (simp add: mandatory_changeset_file_def endsWith_def)

lemma root_manifest_example:
  "\<not> js_match isInTestDirRegex ''packages/foo/package.json''"
  by (simp add: isInTestDirRegex_def line_terminator_def)

theorem privileged_file_kept_outside_test_dir_witness:
  "endsWith ''packages/foo/package.json'' ''package.json''
   \<and> mandatory_changeset_file ''packages/foo/package.json''"
  using privileged_file_kept_outside_test_dir [of "''packages/foo/package.json''"]
     root_manifest_example
  by (simp add: endsWith_def)

section \<open>Transitive dependencies: the unbounded walk\<close>

lemma depth_tick_nonneg:
  "0 \<le> c \<or> (n = 1 \<and> c = - 1) \<Longrightarrow> 0 \<le> snd (depth_tick n c q)"
  by (auto simp: depth_tick_def)

lemma edges_Image: "map_of g a = Some ds \<Longrightarrow> edges g `` {a} = set ds"
  by (auto simp: edges_def)

lemma walk_unbounded:
  "depth + 1 < 0 \<Longrightarrow> closed_graph g \<Longrightarrow>
   set queue \<subseteq> dom (map_of g) \<Longrightarrow> 0 \<le> c \<or> (n = 1 \<and> c = - 1) \<Longrightarrow>
     \<exists>res. walk g depth (visited, queue, n, c) = Inr res
         \<and> set visited \<union> set queue \<subseteq> set res
         \<and> (\<forall>v \<in> set res - set visited. edges g `` {v} \<subseteq> set res)
         \<and> set res \<subseteq> set visited \<union> (edges g)\<^sup>* `` set queue
         \<and> (distinct visited \<longrightarrow> distinct res)"
proof (induction g depth "(visited, queue, n, c)" arbitrary: visited queue n c rule: walk.induct)
  case (1 depGraph depth visited queue n c)
  note assms' = "1.prems"(1,2)
  show ?case
  proof (cases queue)
    case Nil
    then show ?thesis by (simp add: walk.simps[of depGraph depth visited queue n c])
  next
    case (Cons currentPkg rest)
    let ?n' = "fst (depth_tick n c queue)"
    let ?c' = "snd (depth_tick n c queue)"
    have c': "0 \<le> ?c'" using depth_tick_nonneg[OF "1.prems"(4)] .
    then have nobreak: "?c' \<noteq> depth + 1" using assms'(1) by linarith
    have inv': "0 \<le> ?c' \<or> (?n' = 1 \<and> ?c' = - 1)" using c' by simp
    show ?thesis
    proof (cases "currentPkg \<in> set visited")
      case True
      have step: "walk depGraph depth (visited, queue, n, c)
                  = walk depGraph depth (visited, rest, ?n', ?c')"
        using Cons nobreak True by (subst walk.simps) simp
      have q: "set rest \<subseteq> dom (map_of depGraph)" using "1.prems"(3) Cons by simp
      from "1.hyps"(1)[OF Cons nobreak True assms' q inv']
      obtain res where res: "walk depGraph depth (visited, rest, ?n', ?c') = Inr res"
         "set visited \<union> set rest \<subseteq> set res"
         "\<forall>v \<in> set res - set visited. edges depGraph `` {v} \<subseteq> set res"
         "set res \<subseteq> set visited \<union> (edges depGraph)\<^sup>* `` set rest"
         "distinct visited \<longrightarrow> distinct res" by blast
      have "set res \<subseteq> set visited \<union> (edges depGraph)\<^sup>* `` set queue"
        using res(4) Cons by auto
      moreover have "set visited \<union> set queue \<subseteq> set res"
        using res(2) True Cons by auto
      ultimately show ?thesis using step res(1,3,5) by simp
    next
      case False
      from "1.prems"(3) Cons obtain deps where deps: "map_of depGraph currentPkg = Some deps"
        by auto
      have step: "walk depGraph depth (visited, queue, n, c)
                  = walk depGraph depth (visited @ [currentPkg], rest @ deps, ?n', ?c')"
        using Cons nobreak False deps by (subst walk.simps) simp
      have "set deps \<subseteq> dom (map_of depGraph)"
        using assms'(2) deps unfolding closed_graph_def by blast
      then have q: "set (rest @ deps) \<subseteq> dom (map_of depGraph)"
        using "1.prems"(3) Cons by simp
      from "1.hyps"(2)[OF Cons nobreak False deps assms' q inv']
      obtain res where res:
         "walk depGraph depth (visited @ [currentPkg], rest @ deps, ?n', ?c') = Inr res"
         "set (visited @ [currentPkg]) \<union> set (rest @ deps) \<subseteq> set res"
         "\<forall>v \<in> set res - set (visited @ [currentPkg]). edges depGraph `` {v} \<subseteq> set res"
         "set res \<subseteq> set (visited @ [currentPkg]) \<union> (edges depGraph)\<^sup>* `` set (rest @ deps)"
         "distinct (visited @ [currentPkg]) \<longrightarrow> distinct res" by blast
      have a: "set visited \<union> set queue \<subseteq> set res"
        using res(2) Cons by auto
      have "edges depGraph `` {currentPkg} \<subseteq> set res"
        using edges_Image[OF deps] res(2) by auto
      then have b: "\<forall>v \<in> set res - set visited. edges depGraph `` {v} \<subseteq> set res"
        using res(3) by auto
      have "set deps \<subseteq> (edges depGraph)\<^sup>* `` set queue"
        using edges_Image[OF deps] Cons by auto
      moreover have "(edges depGraph)\<^sup>* `` set deps \<subseteq> (edges depGraph)\<^sup>* `` set queue"
      proof
        fix x assume "x \<in> (edges depGraph)\<^sup>* `` set deps"
        then obtain d where d: "d \<in> set deps" "(d, x) \<in> (edges depGraph)\<^sup>*" by auto
        have "(currentPkg, d) \<in> edges depGraph" using deps d(1) by (auto simp: edges_def)
        then have "(currentPkg, x) \<in> (edges depGraph)\<^sup>*" using d(2) by auto
        then show "x \<in> (edges depGraph)\<^sup>* `` set queue" using Cons by auto
      qed
      moreover have "currentPkg \<in> (edges depGraph)\<^sup>* `` set queue"
        using Cons by auto
      moreover have "(edges depGraph)\<^sup>* `` set rest \<subseteq> (edges depGraph)\<^sup>* `` set queue"
        using Cons by auto
      moreover have "set res \<subseteq> insert currentPkg (set visited)
          \<union> ((edges depGraph)\<^sup>* `` set rest \<union> (edges depGraph)\<^sup>* `` set deps)"
        using res(4) by (simp add: Image_Un)
      ultimately have c: "set res \<subseteq> set visited \<union> (edges depGraph)\<^sup>* `` set queue"
        by blast
      have d: "distinct visited \<longrightarrow> distinct res" using res(5) False by simp
      show ?thesis using step res(1) a b c d by simp
    qed
  qed
qed

text \<open>
  Claim C7, as amended. On a closed dependency graph that has the root as a key, with
  \<open>depth\<close> omitted or less than \<open>-1\<close>, \<open>getTransitiveDependencies\<close> returns
  normally, and its result lists, each once, exactly the packages reachable from the root
  other than the root itself.
\<close>

theorem transitive_dependencies_unbounded:
  assumes "depth = None \<or> (\<exists>d. depth = Some d \<and> d < - 1)"
    and "closed_graph g" and "root \<in> dom (map_of g)"
  shows "\<exists>res. getTransitiveDependencies root depth g = Inr res
           \<and> set res = (edges g)\<^sup>* `` {root} - {root} \<and> distinct res"
proof -
  let ?d = "case depth of None \<Rightarrow> - 100 | Some d \<Rightarrow> d"
  have d: "?d + 1 < 0" using assms(1) by (auto split: option.splits)
  from walk_unbounded[OF d assms(2), of "[root]" "- 1" 1 "[]"] assms(3)
  obtain res where res: "walk g ?d ([], [root], 1, - 1) = Inr res"
     "root \<in> set res" "\<forall>v \<in> set res. edges g `` {v} \<subseteq> set res"
     "set res \<subseteq> (edges g)\<^sup>* `` {root}" "distinct res" by auto
  have "(edges g)\<^sup>* `` {root} \<subseteq> set res"
  proof
    fix x assume "x \<in> (edges g)\<^sup>* `` {root}"
    then have "(root, x) \<in> (edges g)\<^sup>*" by simp
    then show "x \<in> set res"
      by (induction rule: rtrancl_induct) (use res(2,3) in auto)
  qed
  with res(4) have "set res = (edges g)\<^sup>* `` {root}" by blast
  then show ?thesis
    using res(1,5) by (simp add: getTransitiveDependencies_def distinct_removeAll)
qed


lemma closed_chain_graph: "closed_graph chain_graph"
  by (auto simp: closed_graph_def chain_graph_def split: if_splits)

theorem transitive_dependencies_unbounded_witness:
  "closed_graph chain_graph \<and> ''a'' \<in> dom (map_of chain_graph)
   \<and> (\<exists>res. getTransitiveDependencies ''a'' None chain_graph = Inr res
           \<and> set res = (edges chain_graph)\<^sup>* `` {''a''} - {''a''} \<and> distinct res)"
  using transitive_dependencies_unbounded [of None chain_graph "''a''"] closed_chain_graph
  by (simp add: chain_graph_def)

text \<open>
  Claim C7 as stated fails twice. With the negative depth \<open>-1\<close> the loop stops before
  it visits the root and the result is empty although \<open>b\<close> is reachable from \<open>a\<close>;
  and on a graph that names a package without an entry the function throws.
\<close>

theorem transitive_dependencies_counterexample:
  "getTransitiveDependencies ''a'' (Some (- 1)) chain_graph = Inr []
   \<and> ''b'' \<in> (edges chain_graph)\<^sup>* `` {''a''} - {''a''}
   \<and> ''a'' \<in> dom (map_of open_graph)
   \<and> getTransitiveDependencies ''a'' None open_graph = Inl (CannotFindInGraph ''b'')"
proof (intro conjI)
  show "getTransitiveDependencies ''a'' (Some (- 1)) chain_graph = Inr []"
    by (simp add: getTransitiveDependencies_def chain_graph_def walk.simps depth_tick_def)
  have "(''a'', ''b'') \<in> edges chain_graph"
    by (simp add: edges_def chain_graph_def)
  then show "''b'' \<in> (edges chain_graph)\<^sup>* `` {''a''} - {''a''}"
    by auto
  show "''a'' \<in> dom (map_of open_graph)"
    by (simp add: open_graph_def)
  show "getTransitiveDependencies ''a'' None open_graph = Inl (CannotFindInGraph ''b'')"
    by (simp add: getTransitiveDependencies_def open_graph_def walk.simps depth_tick_def)
qed

section \<open>update-min-versions: the dependents graph\<close>

lemma grows_refl: "grows g g d []"
  by (simp add: grows_def)

lemma grows_trans: "grows g g' d xs \<Longrightarrow> grows g' g'' d ys \<Longrightarrow> grows g g'' d (xs @ ys)"
  by (auto simp: grows_def current_def)

lemma grows_add_dependent:
  "grows g (add_dependent nm dt e g) d
     (if fst e = d then [\<lparr>dep_name = nm, versionRange = snd e, depType = dt\<rparr>] else [])"
  by (simp add: grows_def add_dependent_def current_def Let_def)

lemma grows_entries:
  "grows g (fold (add_dependent nm dt) es g) d
     (map (\<lambda>e. \<lparr>dep_name = nm, versionRange = snd e, depType = dt\<rparr>) (filter (\<lambda>e. fst e = d) es))"
proof (induction es arbitrary: g)
  case Nil
  show ?case by (simp add: grows_refl)
next
  case (Cons e es)
  from grows_trans[OF grows_add_dependent[of g nm dt e d] Cons.IH[of "add_dependent nm dt e g"]]
  show ?case by (cases "fst e = d") simp_all
qed

lemma grows_types:
  "grows g (fold (\<lambda>dt graph. fold (add_dependent nm dt) (entries_of (get_deps dt pj)) graph) dts g) d
     (concat (map (\<lambda>dt. map (\<lambda>e. \<lparr>dep_name = nm, versionRange = snd e, depType = dt\<rparr>)
                          (filter (\<lambda>e. fst e = d) (entries_of (get_deps dt pj)))) dts))"
proof (induction dts arbitrary: g)
  case Nil
  show ?case by (simp add: grows_refl)
next
  case (Cons dt dts)
  from grows_trans[OF grows_entries[of g nm dt "entries_of (get_deps dt pj)" d]
         Cons.IH[of "fold (add_dependent nm dt) (entries_of (get_deps dt pj)) g"]]
  show ?case by simp
qed

lemma grows_packages:
  "grows g (fold (\<lambda>pkg graph.
        fold (\<lambda>dt graph.
           fold (add_dependent (name (packageJson pkg)) dt)
                (entries_of (get_deps dt (packageJson pkg))) graph)
          dependencyTypes graph) packages g) d (dependents_of packages d)"
proof (induction packages arbitrary: g)
  case Nil
  show ?case by (simp add: grows_refl dependents_of_def)
next
  case (Cons pkg packages)
  let ?g1 = "fold (\<lambda>dt graph.
           fold (add_dependent (name (packageJson pkg)) dt)
                (entries_of (get_deps dt (packageJson pkg))) graph) dependencyTypes g"
  have "grows g ?g1 d (edges_from pkg d)"
    unfolding edges_from_def by (rule grows_types)
  from grows_trans[OF this Cons.IH[of ?g1]]
  show ?case by (simp add: dependents_of_def)
qed

lemma getDependentsGraph_lookup:
  "getDependentsGraph packages d =
     (if dependents_of packages d = [] then None else Some (dependents_of packages d))"
  using grows_packages[of Map.empty packages d]
  by (simp add: getDependentsGraph_def grows_def current_def)

text \<open>
  Claim C9, as amended. \<open>getDependentsGraph\<close> is a function of the package list alone
  and returns a graph for every input, with or without names: the entry for \<open>d\<close> is
  the list of the declared dependencies on \<open>d\<close>, in package order, absent when there
  is none. A package without a name contributes edges whose dependent name is undefined.
\<close>

theorem dependents_graph_total:
  "getDependentsGraph packages d =
     (if dependents_of packages d = [] then None else Some (dependents_of packages d))"
  by (rule getDependentsGraph_lookup)

text \<open>
  Claim C9 as stated fails: for a package record without a name the function does not
  fail, it returns a graph.
\<close>

theorem dependents_graph_counterexample:
  "name (packageJson nameless_package) = None
   \<and> getDependentsGraph [nameless_package] ''@af/package-a''
       = Some [\<lparr>dep_name = None, versionRange = ''^1.0.0'', depType = T_dependencies\<rparr>]"
  by (simp add: getDependentsGraph_def nameless_package_def dependencyTypes_def
        add_dependent_def entries_of_def)

section \<open>update-min-versions: the run as a list of writes\<close>

lemma get_set_deps: "get_deps dt' (set_deps dt x pj) = (if dt' = dt then x else get_deps dt' pj)"
  by (cases dt; cases dt') simp_all

lemma length_write_range [simp]: "length (write_range i dt dd k v heap) = length heap"
  by (simp add: write_range_def)

lemma get_deps_write_range:
  "j < length heap \<Longrightarrow>
   get_deps dt' (packageJson (write_range i dt dd k v heap ! j)) =
     (if j = i \<and> dt' = dt then Some (AList.update k v dd)
      else get_deps dt' (packageJson (heap ! j)))"
  by (cases "j = i") (simp_all add: write_range_def get_set_deps)

lemma resolvable_write_range:
  "resolvable pbn rbn heap dep \<Longrightarrow> resolvable pbn rbn (write_range i dt dd k v heap) dep"
  unfolding resolvable_def by (auto simp: get_deps_write_range)

lemma length_apply_action [simp]: "length (apply_action a heap) = length heap"
  by (simp add: apply_action_def split: prod.splits option.splits)

lemma resolvable_apply_action:
  "resolvable pbn rbn heap dep \<Longrightarrow> resolvable pbn rbn (apply_action a heap) dep"
  by (simp add: apply_action_def resolvable_write_range split: prod.splits option.splits)

lemma resolvable_fold:
  "resolvable pbn rbn heap dep \<Longrightarrow> resolvable pbn rbn (fold apply_action as heap) dep"
  by (induction as arbitrary: heap) (simp_all add: resolvable_apply_action)

lemma updateDependents_actions:
  "\<forall>dep \<in> set deps. resolvable pbn rbn heap dep \<Longrightarrow>
   updateDependents r deps pbn rbn (upd, heap) =
     (None, upd @ map fst (dep_actions r deps pbn rbn),
      fold apply_action (dep_actions r deps pbn rbn) heap)"
proof (induction deps arbitrary: upd heap)
  case Nil
  show ?case by (simp add: dep_actions_def)
next
  case (Cons dep deps)
  have rest: "\<forall>d \<in> set deps. resolvable pbn rbn heap d" using Cons.prems by simp
  show ?case
  proof (cases "processed rbn dep")
    case False
    then have "updateDependents r (dep # deps) pbn rbn (upd, heap)
               = updateDependents r deps pbn rbn (upd, heap)"
      by (auto simp: processed_def)
    moreover have "dep_actions r (dep # deps) pbn rbn = dep_actions r deps pbn rbn"
      using False by (simp add: dep_actions_def)
    ultimately show ?thesis using Cons.IH[OF rest] by simp
  next
    case True
    with Cons.prems obtain i dd where i: "pbn (dep_name dep) = Some i" "i < length heap"
        "get_deps (depType dep) (packageJson (heap ! i)) = Some dd"
      unfolding resolvable_def by auto
    let ?heap' = "write_range i (depType dep) dd (rel_name r) (''^'' @ newVersion r) heap"
    have step: "updateDependents r (dep # deps) pbn rbn (upd, heap)
               = updateDependents r deps pbn rbn (upd @ [i], ?heap')"
      using True i by (simp add: processed_def)
    have acts: "dep_actions r (dep # deps) pbn rbn
                = (i, depType dep, rel_name r, ''^'' @ newVersion r) # dep_actions r deps pbn rbn"
      using True i by (simp add: dep_actions_def)
    have app: "apply_action (i, depType dep, rel_name r, ''^'' @ newVersion r) heap = ?heap'"
      using i by (simp add: apply_action_def)
    have rest': "\<forall>d \<in> set deps. resolvable pbn rbn ?heap' d"
      using rest by (simp add: resolvable_write_range)
    show ?thesis
      unfolding step acts using Cons.IH[OF rest', of "upd @ [i]"] app by simp
  qed
qed

lemma release_loop_actions:
  "\<forall>r \<in> set rs. rel_type r = minor \<longrightarrow>
      (\<forall>deps. g (rel_name r) = Some deps \<longrightarrow> (\<forall>dep \<in> set deps. resolvable pbn rbn heap dep)) \<Longrightarrow>
   release_loop rs g pbn rbn (updSet, heap) =
     (None, fold set_add (map fst (plan_actions rs g pbn rbn)) updSet,
      fold apply_action (plan_actions rs g pbn rbn) heap)"
proof (induction rs arbitrary: updSet heap)
  case Nil
  show ?case by (simp add: plan_actions_def)
next
  case (Cons r rs)
  have rest: "\<forall>r \<in> set rs. rel_type r = minor \<longrightarrow>
      (\<forall>deps. g (rel_name r) = Some deps \<longrightarrow> (\<forall>dep \<in> set deps. resolvable pbn rbn heap dep))"
    using Cons.prems by simp
  show ?case
  proof (cases "rel_type r = minor")
    case False
    then show ?thesis using Cons.IH[OF rest] by (simp add: plan_actions_def)
  next
    case True
    show ?thesis
    proof (cases "g (rel_name r)")
      case None
      then show ?thesis using True Cons.IH[OF rest] by (simp add: plan_actions_def)
    next
      case (Some deps)
      have "\<forall>dep \<in> set deps. resolvable pbn rbn heap dep"
        using Cons.prems True Some by simp
      from updateDependents_actions[OF this, of r "[]"]
      have u: "updateDependents r deps pbn rbn ([], heap) =
          (None, map fst (dep_actions r deps pbn rbn),
           fold apply_action (dep_actions r deps pbn rbn) heap)" by simp
      let ?heap' = "fold apply_action (dep_actions r deps pbn rbn) heap"
      have rest': "\<forall>r \<in> set rs. rel_type r = minor \<longrightarrow>
        (\<forall>deps. g (rel_name r) = Some deps \<longrightarrow> (\<forall>dep \<in> set deps. resolvable pbn rbn ?heap' dep))"
        using rest by (simp add: resolvable_fold)
      have pa: "plan_actions (r # rs) g pbn rbn
                = dep_actions r deps pbn rbn @ plan_actions rs g pbn rbn"
        using True Some by (simp add: plan_actions_def)
      show ?thesis
        using True Some u
          Cons.IH[OF rest', of "fold set_add (map fst (dep_actions r deps pbn rbn)) updSet"]
        by (simp add: pa)
    qed
  qed
qed

section \<open>update-min-versions: ranges after the run\<close>

lemma fold_names_other:
  "n \<notin> pkg_name ` set ps \<Longrightarrow>
   fold (\<lambda>(i, x) m. m(name (packageJson x) \<mapsto> i)) (enumerate k ps) m n = m n"
  by (induction ps arbitrary: k m) (auto simp: pkg_name_def)

lemma fold_names_distinct:
  "distinct (map pkg_name ps) \<Longrightarrow> i < length ps \<Longrightarrow>
   fold (\<lambda>(i, x) m. m(name (packageJson x) \<mapsto> i)) (enumerate k ps) m (pkg_name (ps ! i))
     = Some (k + i)"
proof (induction ps arbitrary: k m i)
  case Nil
  then show ?case by simp
next
  case (Cons x xs)
  show ?case
  proof (cases i)
    case 0
    have "pkg_name x \<notin> pkg_name ` set xs" using Cons.prems(1) by auto
    from fold_names_other[OF this, of "Suc k" "m(name (packageJson x) \<mapsto> k)"]
    have "fold (\<lambda>(i, x) m. m(name (packageJson x) \<mapsto> i)) (enumerate (Suc k) xs)
            (m(name (packageJson x) \<mapsto> k)) (pkg_name x) = Some k"
      by (simp add: pkg_name_def)
    then show ?thesis using 0 by (simp del: fun_upd_apply)
  next
    case (Suc j)
    then have "j < length xs" using Cons.prems(2) by simp
    moreover have "distinct (map pkg_name xs)" using Cons.prems(1) by simp
    ultimately show ?thesis using Cons.IH[of j "Suc k"] Suc by simp
  qed
qed

lemma fold_names_range:
  "fold (\<lambda>(i, x) m. m(name (packageJson x) \<mapsto> i)) (enumerate k ps) m n = Some j \<Longrightarrow>
   m n = Some j \<or> (k \<le> j \<and> j < k + length ps \<and> pkg_name (ps ! (j - k)) = n)"
proof (induction ps arbitrary: k m)
  case Nil
  then show ?case by simp
next
  case (Cons x xs)
  from Cons.prems have
    "fold (\<lambda>(i, x) m. m(name (packageJson x) \<mapsto> i)) (enumerate (Suc k) xs)
       (m(name (packageJson x) \<mapsto> k)) n = Some j" by (simp del: fun_upd_apply)
  from Cons.IH[OF this]
  consider "(m(name (packageJson x) \<mapsto> k)) n = Some j"
    | "Suc k \<le> j" "j < Suc k + length xs" "pkg_name (xs ! (j - Suc k)) = n" by blast
  then show ?case
  proof cases
    case 1
    then show ?thesis by (auto simp: pkg_name_def split: if_splits)
  next
    case 2
    then have "(x # xs) ! (j - k) = xs ! (j - Suc k)"
      by (metis Suc_diff_Suc Suc_le_lessD nth_Cons_Suc)
    then show ?thesis using 2 by auto
  qed
qed

lemma packagesByName_distinct:
  "distinct (map pkg_name ps) \<Longrightarrow> i < length ps \<Longrightarrow> packagesByName ps (pkg_name (ps ! i)) = Some i"
  using fold_names_distinct[of ps i 0 Map.empty] by (simp add: packagesByName_def)

lemma packagesByName_range:
  "packagesByName ps n = Some j \<Longrightarrow> j < length ps \<and> pkg_name (ps ! j) = n"
  using fold_names_range[of 0 ps Map.empty n j] by (simp add: packagesByName_def)

lemma releasesByName_range:
  "fold (\<lambda>x m. m(Some (rel_name x) \<mapsto> x)) rs m n = Some e \<Longrightarrow>
   m n = Some e \<or> (e \<in> set rs \<and> Some (rel_name e) = n)"
  by (induction rs arbitrary: m) (fastforce split: if_splits)+

lemma releasesByName_SomeD:
  "releasesByName rs n = Some e \<Longrightarrow> e \<in> set rs \<and> Some (rel_name e) = n"
  using releasesByName_range[of rs Map.empty n e] by (simp add: releasesByName_def)

lemma in_edges_from:
  "dep \<in> set (edges_from p d) =
   (\<exists>dt al. get_deps dt (packageJson p) = Some al \<and> (d, versionRange dep) \<in> set al
       \<and> dep_name dep = pkg_name p \<and> depType dep = dt)"
proof -
  have dts: "set dependencyTypes = UNIV"
    using depType.exhaust by (auto simp: dependencyTypes_def)
  have "dep \<in> set (edges_from p d) =
        (\<exists>dt. \<exists>e \<in> set (entries_of (get_deps dt (packageJson p))). fst e = d \<and>
           dep = \<lparr>dep_name = name (packageJson p), versionRange = snd e, depType = dt\<rparr>)"
    unfolding edges_from_def by (auto simp: dts)
  also have "\<dots> = (\<exists>dt al. get_deps dt (packageJson p) = Some al \<and> (d, versionRange dep) \<in> set al
       \<and> dep_name dep = pkg_name p \<and> depType dep = dt)"
  proof
    assume "\<exists>dt. \<exists>e \<in> set (entries_of (get_deps dt (packageJson p))). fst e = d \<and>
           dep = \<lparr>dep_name = name (packageJson p), versionRange = snd e, depType = dt\<rparr>"
    then obtain dt e where e: "e \<in> set (entries_of (get_deps dt (packageJson p)))" "fst e = d"
       "dep = \<lparr>dep_name = name (packageJson p), versionRange = snd e, depType = dt\<rparr>" by blast
    from e(1) obtain al where al: "get_deps dt (packageJson p) = Some al" "e \<in> set al"
      by (cases "get_deps dt (packageJson p)") (auto simp: entries_of_def)
    have "(d, versionRange dep) = e" using e(2,3) by (cases e) simp
    then show "\<exists>dt al. get_deps dt (packageJson p) = Some al \<and> (d, versionRange dep) \<in> set al
       \<and> dep_name dep = pkg_name p \<and> depType dep = dt"
      using al e(3) by (auto simp: pkg_name_def)
  next
    assume "\<exists>dt al. get_deps dt (packageJson p) = Some al \<and> (d, versionRange dep) \<in> set al
       \<and> dep_name dep = pkg_name p \<and> depType dep = dt"
    then obtain dt al where al: "get_deps dt (packageJson p) = Some al"
       "(d, versionRange dep) \<in> set al" "dep_name dep = pkg_name p" "depType dep = dt" by blast
    have "(d, versionRange dep) \<in> set (entries_of (get_deps dt (packageJson p)))"
      using al(1,2) by (simp add: entries_of_def)
    moreover have "dep = \<lparr>dep_name = name (packageJson p),
        versionRange = snd (d, versionRange dep), depType = dt\<rparr>"
      using al(3,4) by (cases dep) (simp add: pkg_name_def)
    ultimately show "\<exists>dt. \<exists>e \<in> set (entries_of (get_deps dt (packageJson p))). fst e = d \<and>
           dep = \<lparr>dep_name = name (packageJson p), versionRange = snd e, depType = dt\<rparr>"
      by (intro exI[of _ dt] bexI[of _ "(d, versionRange dep)"]) simp_all
  qed
  finally show ?thesis .
qed

lemma in_dependents_of:
  "dep \<in> set (dependents_of ps d) =
   (\<exists>j dt al. j < length ps \<and> get_deps dt (packageJson (ps ! j)) = Some al
       \<and> (d, versionRange dep) \<in> set al
       \<and> dep_name dep = pkg_name (ps ! j) \<and> depType dep = dt)"
proof -
  have "dep \<in> set (dependents_of ps d) = (\<exists>p \<in> set ps. dep \<in> set (edges_from p d))"
    by (simp add: dependents_of_def)
  also have "\<dots> = (\<exists>j < length ps. dep \<in> set (edges_from (ps ! j) d))"
    by (metis in_set_conv_nth)
  finally show ?thesis unfolding in_edges_from by blast
qed

lemma graph_SomeD:
  "getDependentsGraph ps d = Some deps \<Longrightarrow> deps = dependents_of ps d"
  by (simp add: getDependentsGraph_lookup split: if_splits)

lemma main_edges_resolvable:
  assumes "distinct (map pkg_name ps)" and "getDependentsGraph ps d = Some deps"
    and "dep \<in> set deps"
  shows "resolvable (packagesByName ps) rbn ps dep"
proof -
  have "dep \<in> set (dependents_of ps d)" using graph_SomeD[OF assms(2)] assms(3) by simp
  then obtain j dt al where j: "j < length ps" "get_deps dt (packageJson (ps ! j)) = Some al"
      "dep_name dep = pkg_name (ps ! j)" "depType dep = dt"
    unfolding in_dependents_of by blast
  have "packagesByName ps (dep_name dep) = Some j"
    using packagesByName_distinct[OF assms(1) j(1)] j(3) by simp
  then show ?thesis
    using j unfolding resolvable_def by auto
qed

lemma main_run:
  assumes "distinct (map pkg_name ps)"
  shows "main plan ps =
     \<lparr>outcome = None,
      memory = fold apply_action (main_actions plan ps) ps,
      effects = map (\<lambda>pkg. WriteFile (fold apply_action (main_actions plan ps) ps ! pkg))
                    (fold set_add (map fst (main_actions plan ps)) [])
                @ (if length (fold set_add (map fst (main_actions plan ps)) []) > 0
                   then [GitAdd, GitCommit] else [])\<rparr>"
proof -
  have "\<forall>r \<in> set (releases plan). rel_type r = minor \<longrightarrow>
      (\<forall>deps. getDependentsGraph ps (rel_name r) = Some deps \<longrightarrow>
         (\<forall>dep \<in> set deps. resolvable (packagesByName ps) (releasesByName (releases plan)) ps dep))"
    using main_edges_resolvable[OF assms] by blast
  from release_loop_actions[OF this, of "[]"]
  show ?thesis
    by (simp add: main_def propagate_def main_actions_def)
qed


lemma writes_to_Cons:
  "writes_to j dt (a # acts) =
     (if fst a = j \<and> fst (snd a) = dt then [snd (snd a)] else []) @ writes_to j dt acts"
  by (simp add: writes_to_def)

lemma writes_to_Nil [simp]: "writes_to j dt [] = []"
  by (simp add: writes_to_def)

lemma writes_to_append: "writes_to j dt (xs @ ys) = writes_to j dt xs @ writes_to j dt ys"
  by (simp add: writes_to_def)

lemma in_writes_to: "(k, v) \<in> set (writes_to j dt acts) = ((j, dt, k, v) \<in> set acts)"
  by (force simp: writes_to_def)

lemma get_deps_apply_action:
  assumes "j < length heap"
  shows "get_deps dt (packageJson (apply_action a heap ! j)) =
     map_option (fold (\<lambda>(k, v). AList.update k v)
                   (if fst a = j \<and> fst (snd a) = dt then [snd (snd a)] else []))
       (get_deps dt (packageJson (heap ! j)))"
proof -
  obtain i dt' k v where a: "a = (i, dt', k, v)" by (cases a) auto
  show ?thesis
  proof (cases "get_deps dt' (packageJson (heap ! i))")
    case None
    then show ?thesis using a by (auto simp: apply_action_def option.map_ident option.map_id)
  next
    case (Some dd)
    then show ?thesis
      using a assms
      by (auto simp: apply_action_def get_deps_write_range option.map_ident option.map_id)
  qed
qed

lemma get_deps_fold_actions:
  "j < length heap \<Longrightarrow>
   get_deps dt (packageJson (fold apply_action acts heap ! j)) =
     map_option (fold (\<lambda>(k, v). AList.update k v) (writes_to j dt acts))
       (get_deps dt (packageJson (heap ! j)))"
proof (induction acts arbitrary: heap)
  case Nil
  show ?case by (simp add: option.map_ident)
next
  case (Cons a acts)
  have "j < length (apply_action a heap)" using Cons.prems by simp
  from Cons.IH[OF this] show ?case
    using get_deps_apply_action[OF Cons.prems, of dt a]
    by (simp add: writes_to_Cons option.map_comp comp_def)
qed

lemma frame_set_deps:
  "name (set_deps dt x pj) = name pj \<and> version (set_deps dt x pj) = version pj
   \<and> isPrivate (set_deps dt x pj) = isPrivate pj"
  by (cases dt) simp_all

lemma frame_apply_action:
  "j < length heap \<Longrightarrow>
   dir (apply_action a heap ! j) = dir (heap ! j)
   \<and> name (packageJson (apply_action a heap ! j)) = name (packageJson (heap ! j))
   \<and> version (packageJson (apply_action a heap ! j)) = version (packageJson (heap ! j))
   \<and> isPrivate (packageJson (apply_action a heap ! j)) = isPrivate (packageJson (heap ! j))"
proof -
  assume j: "j < length heap"
  obtain i dt k v where a: "a = (i, dt, k, v)" by (cases a) auto
  show ?thesis
  proof (cases "get_deps dt (packageJson (heap ! i))")
    case None
    then show ?thesis using a by (simp add: apply_action_def)
  next
    case (Some dd)
    then have "apply_action a heap = write_range i dt dd k v heap"
      using a by (simp add: apply_action_def)
    then show ?thesis
      using j by (cases "j = i") (simp_all add: write_range_def frame_set_deps)
  qed
qed

lemma frame_fold_actions:
  "j < length heap \<Longrightarrow>
   dir (fold apply_action acts heap ! j) = dir (heap ! j)
   \<and> name (packageJson (fold apply_action acts heap ! j)) = name (packageJson (heap ! j))
   \<and> version (packageJson (fold apply_action acts heap ! j)) = version (packageJson (heap ! j))
   \<and> isPrivate (packageJson (fold apply_action acts heap ! j)) = isPrivate (packageJson (heap ! j))"
proof (induction acts arbitrary: heap)
  case Nil
  show ?case by simp
next
  case (Cons a acts)
  have "j < length (apply_action a heap)" using Cons.prems by simp
  from Cons.IH[OF this] frame_apply_action[OF Cons.prems, of a] show ?case by simp
qed

lemma length_fold_actions [simp]: "length (fold apply_action acts heap) = length heap"
  by (induction acts arbitrary: heap) simp_all

lemma map_of_fold_update:
  "\<forall>(k, v') \<in> set kvs. k = D \<longrightarrow> v' = v \<Longrightarrow>
   map_of al D = Some v \<or> D \<in> fst ` set kvs \<Longrightarrow>
   map_of (fold (\<lambda>(k, v). AList.update k v) kvs al) D = Some v"
proof (induction kvs arbitrary: al)
  case Nil
  then show ?case by simp
next
  case (Cons kv kvs)
  obtain k v' where kv: "kv = (k, v')" by (cases kv) auto
  have rest: "\<forall>(k, v') \<in> set kvs. k = D \<longrightarrow> v' = v" using Cons.prems(1) by simp
  have "map_of (AList.update k v' al) D = Some v \<or> D \<in> fst ` set kvs"
    using Cons.prems kv by (auto simp: update_conv')
  from Cons.IH[OF rest this] show ?case using kv by simp
qed

lemma set_fold_set_add: "set (fold set_add xs s) = set s \<union> set xs"
  by (induction xs arbitrary: s) (auto simp: set_add_def)

lemma distinct_fold_set_add: "distinct s \<Longrightarrow> distinct (fold set_add xs s)"
  by (induction xs arbitrary: s) (auto simp: set_add_def)

lemma in_dep_actions:
  "a \<in> set (dep_actions r deps pbn rbn) =
   (\<exists>dep \<in> set deps. processed rbn dep \<and> pbn (dep_name dep) = Some (fst a)
       \<and> snd a = (depType dep, rel_name r, ''^'' @ newVersion r))"
proof (induction deps)
  case Nil
  show ?case by (simp add: dep_actions_def)
next
  case (Cons d deps)
  have split: "dep_actions r (d # deps) pbn rbn =
      (if processed rbn d
       then (case pbn (dep_name d) of None \<Rightarrow> []
             | Some i \<Rightarrow> [(i, depType d, rel_name r, ''^'' @ newVersion r)])
       else []) @ dep_actions r deps pbn rbn"
    by (simp add: dep_actions_def)
  show ?case
  proof (cases "processed rbn d")
    case False
    then show ?thesis using Cons.IH by (auto simp: split)
  next
    case True
    show ?thesis
    proof (cases "pbn (dep_name d)")
      case None
      then show ?thesis using True Cons.IH by (auto simp: split)
    next
      case (Some i)
      then show ?thesis using True Cons.IH by (cases a) (auto simp: split)
    qed
  qed
qed

lemma in_plan_actions:
  "a \<in> set (plan_actions rs g pbn rbn) =
   (\<exists>r \<in> set rs. rel_type r = minor \<and>
      (\<exists>deps. g (rel_name r) = Some deps \<and> a \<in> set (dep_actions r deps pbn rbn)))"
proof (induction rs)
  case Nil
  show ?case by (simp add: plan_actions_def)
next
  case (Cons x rs)
  have split: "plan_actions (x # rs) g pbn rbn =
      (if rel_type x = minor
       then (case g (rel_name x) of None \<Rightarrow> [] | Some deps \<Rightarrow> dep_actions x deps pbn rbn)
       else []) @ plan_actions rs g pbn rbn"
    by (simp add: plan_actions_def)
  show ?case
  proof (cases "rel_type x = minor")
    case False
    then show ?thesis using Cons.IH by (auto simp: split)
  next
    case True
    show ?thesis
    proof (cases "g (rel_name x)")
      case None
      then show ?thesis using True Cons.IH by (auto simp: split)
    next
      case (Some deps)
      then show ?thesis using True Cons.IH by (auto simp: split)
    qed
  qed
qed


lemma main_action_origin:
  assumes "distinct (map pkg_name ps)" and "(j, dt, k, v) \<in> set (main_actions plan ps)"
  shows "\<exists>r \<in> set (releases plan). rel_type r = minor \<and> rel_name r = k
           \<and> v = ''^'' @ newVersion r
           \<and> j < length ps
           \<and> (\<exists>al declared. get_deps dt (packageJson (ps ! j)) = Some al
                 \<and> (k, declared) \<in> set al \<and> startsWith declared ''^'')
           \<and> not_released (releasesByName (releases plan))
                 \<lparr>dep_name = pkg_name (ps ! j), versionRange = [], depType = dt\<rparr>"
proof -
  from assms(2) obtain r deps where r: "r \<in> set (releases plan)" "rel_type r = minor"
      "getDependentsGraph ps (rel_name r) = Some deps"
      "(j, dt, k, v) \<in> set (dep_actions r deps (packagesByName ps) (releasesByName (releases plan)))"
    unfolding main_actions_def in_plan_actions by blast
  from r(4) obtain dep where dep: "dep \<in> set deps"
      "processed (releasesByName (releases plan)) dep"
      "packagesByName ps (dep_name dep) = Some j"
      "dt = depType dep" "k = rel_name r" "v = ''^'' @ newVersion r"
    unfolding in_dep_actions by auto
  have j: "j < length ps" "pkg_name (ps ! j) = dep_name dep"
    using packagesByName_range[OF dep(3)] by auto
  have "dep \<in> set (dependents_of ps (rel_name r))"
    using graph_SomeD[OF r(3)] dep(1) by simp
  then obtain j' al where j': "j' < length ps"
      "get_deps (depType dep) (packageJson (ps ! j')) = Some al"
      "(rel_name r, versionRange dep) \<in> set al" "dep_name dep = pkg_name (ps ! j')"
    unfolding in_dependents_of by blast
  have "packagesByName ps (dep_name dep) = Some j'"
    using packagesByName_distinct[OF assms(1) j'(1)] j'(4) by simp
  then have "j' = j" using dep(3) by simp
  have nr: "not_released (releasesByName (releases plan))
        \<lparr>dep_name = pkg_name (ps ! j), versionRange = [], depType = dt\<rparr>"
    using dep(2) j(2) by (simp add: processed_def not_released_def)
  have "startsWith (versionRange dep) ''^''" using dep(2) by (simp add: processed_def)
  then have "\<exists>al declared. get_deps dt (packageJson (ps ! j)) = Some al
                 \<and> (k, declared) \<in> set al \<and> startsWith declared ''^''"
    using j'(2,3) \<open>j' = j\<close> dep(4,5) by blast
  then show ?thesis
    using r(1,2) dep(5,6) j(1) nr by blast
qed

lemma main_action_present:
  assumes "distinct (map pkg_name ps)" and "i < length ps"
    and "get_deps dt (packageJson (ps ! i)) = Some al"
    and "(D, declared) \<in> set al" and "startsWith declared ''^''"
    and "r \<in> set (releases plan)" and "rel_name r = D" and "rel_type r = minor"
    and "\<forall>e \<in> set (releases plan). Some (rel_name e) = pkg_name (ps ! i)
            \<longrightarrow> oldVersion e = newVersion e"
  shows "(i, dt, D, ''^'' @ newVersion r) \<in> set (main_actions plan ps)"
proof -
  let ?dep = "\<lparr>dep_name = pkg_name (ps ! i), versionRange = declared, depType = dt\<rparr>"
  have mem: "?dep \<in> set (dependents_of ps D)"
    unfolding in_dependents_of using assms(2,3,4) by auto
  then have g: "getDependentsGraph ps (rel_name r) = Some (dependents_of ps D)"
    using assms(7) by (auto simp: getDependentsGraph_lookup)
  have "not_released (releasesByName (releases plan)) ?dep"
  proof (cases "releasesByName (releases plan) (pkg_name (ps ! i))")
    case None
    then show ?thesis by (simp add: not_released_def)
  next
    case (Some e)
    from releasesByName_SomeD[OF Some] assms(9) have "oldVersion e = newVersion e" by blast
    then show ?thesis using Some by (simp add: not_released_def)
  qed
  then have p: "processed (releasesByName (releases plan)) ?dep"
    using assms(5) by (simp add: processed_def)
  have "packagesByName ps (dep_name ?dep) = Some i"
    using packagesByName_distinct[OF assms(1,2)] by simp
  with mem p have "(i, dt, D, ''^'' @ newVersion r)
      \<in> set (dep_actions r (dependents_of ps D) (packagesByName ps) (releasesByName (releases plan)))"
    unfolding in_dep_actions using assms(7) by (intro bexI[of _ ?dep]) simp_all
  then show ?thesis
    unfolding main_actions_def in_plan_actions using assms(6,8) g by blast
qed

lemma main_updated_range:
  assumes "distinct (map pkg_name ps)" and "i < length ps"
    and "get_deps dt (packageJson (ps ! i)) = Some al"
    and "map_of al D = Some declared" and "startsWith declared ''^''"
    and "r \<in> set (releases plan)" and "rel_name r = D" and "rel_type r = minor"
    and "\<forall>r' \<in> set (releases plan). rel_name r' = D \<and> rel_type r' = minor
            \<longrightarrow> newVersion r' = newVersion r"
    and "\<forall>e \<in> set (releases plan). Some (rel_name e) = pkg_name (ps ! i)
            \<longrightarrow> oldVersion e = newVersion e"
  shows "\<exists>al'. get_deps dt (packageJson (fold apply_action (main_actions plan ps) ps ! i)) = Some al'
           \<and> map_of al' D = Some (''^'' @ newVersion r)"
    and "i \<in> set (fold set_add (map fst (main_actions plan ps)) [])"
proof -
  have mem: "(D, declared) \<in> set al" using assms(4) by (rule map_of_SomeD)
  have act: "(i, dt, D, ''^'' @ newVersion r) \<in> set (main_actions plan ps)"
    using main_action_present[OF assms(1,2,3) mem assms(5,6,7,8,10)] .
  then show "i \<in> set (fold set_add (map fst (main_actions plan ps)) [])"
    by (force simp: set_fold_set_add)
  have all: "\<forall>(k, v') \<in> set (writes_to i dt (main_actions plan ps)).
               k = D \<longrightarrow> v' = ''^'' @ newVersion r"
  proof (clarify)
    fix v' assume "(D, v') \<in> set (writes_to i dt (main_actions plan ps))"
    then have "(i, dt, D, v') \<in> set (main_actions plan ps)" by (simp add: in_writes_to)
    from main_action_origin[OF assms(1) this] assms(9)
    show "v' = ''^'' @ newVersion r" by auto
  qed
  have "D \<in> fst ` set (writes_to i dt (main_actions plan ps))"
    using act by (force simp: in_writes_to[symmetric])
  from map_of_fold_update[OF all, of al] this
  have "map_of (fold (\<lambda>(k, v). AList.update k v) (writes_to i dt (main_actions plan ps)) al) D
          = Some (''^'' @ newVersion r)" by simp
  then show "\<exists>al'. get_deps dt (packageJson (fold apply_action (main_actions plan ps) ps ! i)) = Some al'
           \<and> map_of al' D = Some (''^'' @ newVersion r)"
    using get_deps_fold_actions[OF assms(2), of dt "main_actions plan ps"] assms(3) by simp
qed

text \<open>
  Claim C1. In a package set with pairwise different names, let package \<open>i\<close> declare,
  in one of its three dependency maps, a range starting with a caret on \<open>D\<close>; let
  \<open>D\<close> be in the release plan with bump type minor (with one new version); and let the
  package be absent from the plan, or present only with equal old and new versions. Then
  the run succeeds, afterwards the package's range for \<open>D\<close> in that map is the caret
  followed by the new version of \<open>D\<close>, and the package's manifest is written.
\<close>

theorem caret_dependents_get_new_minimum:
  assumes "distinct (map (\<lambda>p. name (packageJson p)) packages)"
    and "i < length packages"
    and "get_deps dt (packageJson (packages ! i)) = Some al"
    and "map_of al D = Some declared" and "startsWith declared ''^''"
    and "r \<in> set (releases plan)" and "rel_name r = D" and "rel_type r = minor"
    and "\<forall>r' \<in> set (releases plan). rel_name r' = D \<and> rel_type r' = minor
            \<longrightarrow> newVersion r' = newVersion r"
    and "\<forall>e \<in> set (releases plan). Some (rel_name e) = name (packageJson (packages ! i))
            \<longrightarrow> oldVersion e = newVersion e"
  shows "outcome (main plan packages) = None
     \<and> (\<exists>al'. get_deps dt (packageJson (memory (main plan packages) ! i)) = Some al'
            \<and> map_of al' D = Some (''^'' @ newVersion r))
     \<and> WriteFile (memory (main plan packages) ! i) \<in> set (effects (main plan packages))"
proof -
  have pn: "pkg_name = (\<lambda>p. name (packageJson p))"
    by (rule ext) (simp add: pkg_name_def)
  have d: "distinct (map pkg_name packages)" using assms(1) by (simp add: pn)
  have e: "\<forall>e \<in> set (releases plan). Some (rel_name e) = pkg_name (packages ! i)
            \<longrightarrow> oldVersion e = newVersion e" using assms(10) by (simp add: pn)
  note u = main_updated_range[OF d assms(2-9) e]
  show ?thesis
    unfolding main_run[OF d] using u by simp
qed


theorem caret_dependents_get_new_minimum_witness:
  "outcome (main \<lparr>releases = [release_a_minor]\<rparr> test_packages) = None
   \<and> (\<exists>al'. get_deps T_dependencies
               (packageJson (memory (main \<lparr>releases = [release_a_minor]\<rparr> test_packages) ! 1))
             = Some al'
          \<and> map_of al' ''@af/package-a'' = Some (''^'' @ newVersion release_a_minor))
   \<and> WriteFile (memory (main \<lparr>releases = [release_a_minor]\<rparr> test_packages) ! 1)
       \<in> set (effects (main \<lparr>releases = [release_a_minor]\<rparr> test_packages))"
  using caret_dependents_get_new_minimum
    [of test_packages 1 T_dependencies "[(''@af/package-a'', ''^1.0.0'')]" "''@af/package-a''"
        "''^1.0.0''" release_a_minor "\<lparr>releases = [release_a_minor]\<rparr>"]
  by (simp add: test_packages_def package_a_def package_b_def package_c_def
        release_a_minor_def startsWith_def)

lemma filter_eq_distinct: "distinct xs \<Longrightarrow> x \<in> set xs \<Longrightarrow> filter (\<lambda>j. j = x) xs = [x]"
proof (induction xs)
  case Nil
  then show ?case by simp
next
  case (Cons y ys)
  show ?case
  proof (cases "y = x")
    case True
    then have "x \<notin> set ys" using Cons.prems(1) by simp
    then have "filter (\<lambda>j. j = x) ys = []" by (auto simp: filter_empty_conv)
    then show ?thesis using True by simp
  next
    case False
    then show ?thesis using Cons by auto
  qed
qed

lemma main_updated_set:
  assumes "distinct (map pkg_name ps)"
  shows "distinct (fold set_add (map fst (main_actions plan ps)) [])"
    and "\<forall>j \<in> set (fold set_add (map fst (main_actions plan ps)) []). j < length ps"
proof -
  show "distinct (fold set_add (map fst (main_actions plan ps)) [])"
    by (simp add: distinct_fold_set_add)
  show "\<forall>j \<in> set (fold set_add (map fst (main_actions plan ps)) []). j < length ps"
  proof
    fix j assume "j \<in> set (fold set_add (map fst (main_actions plan ps)) [])"
    then obtain dt k v where "(j, dt, k, v) \<in> set (main_actions plan ps)"
      by (auto simp: set_fold_set_add)
    from main_action_origin[OF assms this] show "j < length ps" by blast
  qed
qed

lemma pkg_name_memory:
  "j < length ps \<Longrightarrow> pkg_name (fold apply_action acts ps ! j) = pkg_name (ps ! j)"
  using frame_fold_actions[of j ps acts] by (simp add: pkg_name_def)

lemma same_name_same_index:
  "distinct (map pkg_name ps) \<Longrightarrow> j < length ps \<Longrightarrow> i < length ps \<Longrightarrow>
   (pkg_name (ps ! j) = pkg_name (ps ! i)) = (j = i)"
  using nth_eq_iff_index_eq[of "map pkg_name ps" j i] by simp

lemma main_written_once:
  assumes "distinct (map pkg_name ps)" and "i < length ps"
    and "i \<in> set (fold set_add (map fst (main_actions plan ps)) [])"
  shows "filter (\<lambda>e. case e of WriteFile p \<Rightarrow> pkg_name p = pkg_name (ps ! i) | _ \<Rightarrow> False)
           (effects (main plan ps))
         = [WriteFile (memory (main plan ps) ! i)]"
    and "distinct (effects (main plan ps))"
    and "count_list (effects (main plan ps)) GitCommit = 1"
proof -
  let ?U = "fold set_add (map fst (main_actions plan ps)) []"
  let ?mem = "fold apply_action (main_actions plan ps) ps"
  note U = main_updated_set[OF assms(1), of plan]
  have ne: "length ?U > 0" using assms(3) by (cases ?U) auto
  have eff: "effects (main plan ps) = map (\<lambda>j. WriteFile (?mem ! j)) ?U @ [GitAdd, GitCommit]"
    and mem: "memory (main plan ps) = ?mem"
    unfolding main_run[OF assms(1)] using ne by simp_all
  have same: "\<forall>j \<in> set ?U. (pkg_name (?mem ! j) = pkg_name (ps ! i)) = (j = i)"
    using U(2) same_name_same_index[OF assms(1) _ assms(2)] by (simp add: pkg_name_memory)
  have "filter (\<lambda>j. pkg_name (?mem ! j) = pkg_name (ps ! i)) ?U = filter (\<lambda>j. j = i) ?U"
    using same by (intro filter_cong refl) blast
  also have "\<dots> = [i]" using filter_eq_distinct[OF U(1) assms(3)] .
  finally show "filter (\<lambda>e. case e of WriteFile p \<Rightarrow> pkg_name p = pkg_name (ps ! i) | _ \<Rightarrow> False)
           (effects (main plan ps)) = [WriteFile (memory (main plan ps) ! i)]"
    unfolding eff mem by (simp add: filter_map comp_def)
  have "inj_on (\<lambda>j. WriteFile (?mem ! j)) (set ?U)"
  proof (rule inj_onI)
    fix a b assume ab: "a \<in> set ?U" "b \<in> set ?U" "WriteFile (?mem ! a) = WriteFile (?mem ! b)"
    then have "pkg_name (?mem ! a) = pkg_name (?mem ! b)" by simp
    then have "pkg_name (ps ! a) = pkg_name (ps ! b)"
      using U(2) ab(1,2) by (simp add: pkg_name_memory)
    then show "a = b"
      using same_name_same_index[OF assms(1), of a b] U(2) ab(1,2) by simp
  qed
  then have "distinct (map (\<lambda>j. WriteFile (?mem ! j)) ?U)"
    using U(1) by (simp add: distinct_map)
  then show "distinct (effects (main plan ps))"
    unfolding eff by auto
  have "count_list (map (\<lambda>j. WriteFile (?mem ! j)) ?U) GitCommit = 0"
    by (simp add: count_list_0_iff image_iff)
  then show "count_list (effects (main plan ps)) GitCommit = 1"
    unfolding eff by simp
qed


text \<open>
  Claim C4. When the plan has two minor releases and an unreleased package declares
  caret ranges on both, the run succeeds, exactly one write is issued for that package, the
  written manifest is the final one with both ranges raised, no write is issued twice, and
  there is exactly one commit.
\<close>

theorem dependent_of_two_minor_releases_written_once:
  assumes "distinct (map (\<lambda>p. name (packageJson p)) packages)"
    and "distinct (map rel_name (releases plan))"
    and "i < length packages"
    and "r1 \<in> set (releases plan)" and "rel_type r1 = minor"
    and "r2 \<in> set (releases plan)" and "rel_type r2 = minor"
    and "rel_name r1 \<noteq> rel_name r2"
    and "get_deps dt1 (packageJson (packages ! i)) = Some al1"
    and "map_of al1 (rel_name r1) = Some declared1" and "startsWith declared1 ''^''"
    and "get_deps dt2 (packageJson (packages ! i)) = Some al2"
    and "map_of al2 (rel_name r2) = Some declared2" and "startsWith declared2 ''^''"
    and "\<forall>e \<in> set (releases plan). Some (rel_name e) = name (packageJson (packages ! i))
            \<longrightarrow> oldVersion e = newVersion e"
  shows "outcome (main plan packages) = None
     \<and> filter (\<lambda>e. case e of
                     WriteFile p \<Rightarrow> name (packageJson p) = name (packageJson (packages ! i))
                   | _ \<Rightarrow> False)
          (effects (main plan packages))
        = [WriteFile (memory (main plan packages) ! i)]
     \<and> (\<exists>al'. get_deps dt1 (packageJson (memory (main plan packages) ! i)) = Some al'
            \<and> map_of al' (rel_name r1) = Some (''^'' @ newVersion r1))
     \<and> (\<exists>al'. get_deps dt2 (packageJson (memory (main plan packages) ! i)) = Some al'
            \<and> map_of al' (rel_name r2) = Some (''^'' @ newVersion r2))
     \<and> distinct (effects (main plan packages))
     \<and> count_list (effects (main plan packages)) GitCommit = 1"
proof -
  have pn: "pkg_name = (\<lambda>p. name (packageJson p))"
    by (rule ext) (simp add: pkg_name_def)
  have d: "distinct (map pkg_name packages)" using assms(1) by (simp add: pn)
  have e: "\<forall>e \<in> set (releases plan). Some (rel_name e) = pkg_name (packages ! i)
            \<longrightarrow> oldVersion e = newVersion e" using assms(15) by (simp add: pn)
  have inj: "inj_on rel_name (set (releases plan))"
    using assms(2) by (simp add: distinct_map)
  have u1: "\<forall>r' \<in> set (releases plan). rel_name r' = rel_name r1 \<and> rel_type r' = minor
            \<longrightarrow> newVersion r' = newVersion r1"
    using inj assms(4) by (auto dest: inj_onD)
  have u2: "\<forall>r' \<in> set (releases plan). rel_name r' = rel_name r2 \<and> rel_type r' = minor
            \<longrightarrow> newVersion r' = newVersion r2"
    using inj assms(6) by (auto dest: inj_onD)
  note a = main_updated_range[OF d assms(3) assms(9,10,11) assms(4) refl assms(5) u1 e]
  note b = main_updated_range[OF d assms(3) assms(12,13,14) assms(6) refl assms(7) u2 e]
  note w = main_written_once[OF d assms(3) a(2)]
  have mem: "memory (main plan packages) = fold apply_action (main_actions plan packages) packages"
    and out: "outcome (main plan packages) = None"
    unfolding main_run[OF d] by simp_all
  show ?thesis
    using a(1) b(1) w out unfolding mem pn by simp
qed

theorem dependent_of_two_minor_releases_written_once_witness:
  "outcome (main \<lparr>releases = [release_a_minor, release_b_minor]\<rparr> test_packages) = None
   \<and> filter (\<lambda>e. case e of
                     WriteFile p \<Rightarrow> name (packageJson p) = name (packageJson (test_packages ! 2))
                   | _ \<Rightarrow> False)
          (effects (main \<lparr>releases = [release_a_minor, release_b_minor]\<rparr> test_packages))
        = [WriteFile (memory (main \<lparr>releases = [release_a_minor, release_b_minor]\<rparr>
                                test_packages) ! 2)]
   \<and> count_list (effects (main \<lparr>releases = [release_a_minor, release_b_minor]\<rparr> test_packages))
        GitCommit = 1"
proof -
  let ?plan = "\<lparr>releases = [release_a_minor, release_b_minor]\<rparr>"
  let ?al = "[(''@af/package-a'', ''^1.0.0''), (''@af/package-b'', ''^1.0.0'')]"
  have h1: "distinct (map (\<lambda>p. name (packageJson p)) test_packages)"
    by (simp add: test_packages_def package_a_def package_b_def package_c_def)
  have h2: "distinct (map rel_name (releases ?plan))"
    by (simp add: release_a_minor_def release_b_minor_def)
  have h3: "2 < length test_packages" by (simp add: test_packages_def)
  have h4: "release_a_minor \<in> set (releases ?plan)" "rel_type release_a_minor = minor"
    by (simp_all add: release_a_minor_def)
  have h5: "release_b_minor \<in> set (releases ?plan)" "rel_type release_b_minor = minor"
    by (simp_all add: release_b_minor_def)
  have h6: "rel_name release_a_minor \<noteq> rel_name release_b_minor"
    by (simp add: release_a_minor_def release_b_minor_def)
  have h7: "get_deps T_dependencies (packageJson (test_packages ! 2)) = Some ?al"
    by (simp add: test_packages_def package_c_def)
  have h8: "map_of ?al (rel_name release_a_minor) = Some ''^1.0.0''"
    "map_of ?al (rel_name release_b_minor) = Some ''^1.0.0''"
    by (simp_all add: release_a_minor_def release_b_minor_def)
  have h9: "startsWith ''^1.0.0'' ''^''" by (simp add: startsWith_def)
  have h10: "\<forall>e \<in> set (releases ?plan).
      Some (rel_name e) = name (packageJson (test_packages ! 2)) \<longrightarrow> oldVersion e = newVersion e"
    by (simp add: test_packages_def package_c_def release_a_minor_def release_b_minor_def)
  from dependent_of_two_minor_releases_written_once
         [OF h1 h2 h3 h4 h5 h6 h7 h8(1) h9 h7 h8(2) h9 h10]
  show ?thesis by blast
qed

section \<open>update-min-versions: the lookup of a dependent\<close>

text \<open>
  \<open>main\<close> builds the dependents graph and the name-to-package map from the same
  package list, so the dependent of every edge is found: no run of \<open>main\<close> ends with
  the error of a package that cannot be found. A run that fails has issued no write and
  no commit.
\<close>

lemma fold_names_defined:
  "n \<in> pkg_name ` set ps \<or> m n \<noteq> None \<Longrightarrow>
   fold (\<lambda>(i, x) m. m(name (packageJson x) \<mapsto> i)) (enumerate k ps) m n \<noteq> None"
proof (induction ps arbitrary: k m)
  case Nil
  then show ?case by simp
next
  case (Cons x xs)
  have "n \<in> pkg_name ` set xs \<or> (m(name (packageJson x) \<mapsto> k)) n \<noteq> None"
    using Cons.prems by (auto simp: pkg_name_def)
  then have "fold (\<lambda>(i, x) m. m(name (packageJson x) \<mapsto> i)) (enumerate (Suc k) xs)
               (m(name (packageJson x) \<mapsto> k)) n \<noteq> None"
    by (rule Cons.IH)
  then show ?case by (simp del: fun_upd_apply)
qed

lemma packagesByName_defined:
  "n \<in> pkg_name ` set ps \<Longrightarrow> packagesByName ps n \<noteq> None"
  unfolding packagesByName_def by (rule fold_names_defined) simp

lemma main_dependents_resolve:
  assumes "getDependentsGraph ps d = Some deps" and "dep \<in> set deps"
  shows "packagesByName ps (dep_name dep) \<noteq> None"
proof -
  have "dep \<in> set (dependents_of ps d)" using graph_SomeD[OF assms(1)] assms(2) by simp
  then obtain j where "j < length ps" "dep_name dep = pkg_name (ps ! j)"
    unfolding in_dependents_of by blast
  then have "dep_name dep \<in> pkg_name ` set ps" by auto
  then show ?thesis by (rule packagesByName_defined)
qed

lemma updateDependents_finds:
  "\<forall>dep \<in> set deps. pbn (dep_name dep) \<noteq> None \<Longrightarrow>
   fst (updateDependents r deps pbn rbn (upd, heap)) \<noteq> Some (CannotFindPackage x)"
proof (induction deps arbitrary: upd heap)
  case Nil
  show ?case by simp
next
  case (Cons d deps)
  then have rest: "\<forall>dep \<in> set deps. pbn (dep_name dep) \<noteq> None"
    and d: "pbn (dep_name d) \<noteq> None" by simp_all
  have IH: "fst (updateDependents r deps pbn rbn (u, h)) \<noteq> Some (CannotFindPackage x)" for u h
    using rest by (rule Cons.IH)
  show ?case using d IH by (auto split: option.splits)
qed

lemma release_loop_finds:
  "\<forall>r \<in> set rs. \<forall>deps. g (rel_name r) = Some deps \<longrightarrow>
      (\<forall>dep \<in> set deps. pbn (dep_name dep) \<noteq> None) \<Longrightarrow>
   fst (release_loop rs g pbn rbn (updSet, heap)) \<noteq> Some (CannotFindPackage x)"
proof (induction rs arbitrary: updSet heap)
  case Nil
  show ?case by simp
next
  case (Cons r rs)
  have IH: "fst (release_loop rs g pbn rbn (u, h)) \<noteq> Some (CannotFindPackage x)" for u h
    using Cons.prems by (intro Cons.IH) simp
  show ?case
  proof (cases "rel_type r = minor")
    case False
    then show ?thesis using IH by simp
  next
    case True
    show ?thesis
    proof (cases "g (rel_name r)")
      case None
      then show ?thesis using True IH by simp
    next
      case (Some deps)
      then have "\<forall>dep \<in> set deps. pbn (dep_name dep) \<noteq> None" using Cons.prems by simp
      then have u: "fst (updateDependents r deps pbn rbn ([], heap)) \<noteq> Some (CannotFindPackage x)"
        by (rule updateDependents_finds)
      obtain e upd h where res: "updateDependents r deps pbn rbn ([], heap) = (e, upd, h)"
        by (cases "updateDependents r deps pbn rbn ([], heap)") auto
      show ?thesis using True Some res u IH by (cases e) auto
    qed
  qed
qed

lemma main_never_cannot_find:
  "outcome (main plan ps) \<noteq> Some (CannotFindPackage x)"
proof -
  have "\<forall>r \<in> set (releases plan). \<forall>deps. getDependentsGraph ps (rel_name r) = Some deps \<longrightarrow>
      (\<forall>dep \<in> set deps. packagesByName ps (dep_name dep) \<noteq> None)"
    using main_dependents_resolve by blast
  then have "fst (release_loop (releases plan) (getDependentsGraph ps) (packagesByName ps)
                (releasesByName (releases plan)) ([], ps)) \<noteq> Some (CannotFindPackage x)"
    by (rule release_loop_finds)
  then show ?thesis
    by (auto simp: main_def propagate_def split: prod.splits option.splits)
qed

lemma failed_run_writes_nothing:
  "outcome (main plan ps) \<noteq> None \<Longrightarrow> effects (main plan ps) = []"
  by (auto simp: main_def propagate_def split: prod.splits option.splits)

section \<open>update-min-versions: a second run\<close>

lemma packagesByName_fold_cong:
  "map pkg_name ps = map pkg_name qs \<Longrightarrow>
   fold (\<lambda>(i, x) m. m(name (packageJson x) \<mapsto> i)) (enumerate k ps) m
   = fold (\<lambda>(i, x) m. m(name (packageJson x) \<mapsto> i)) (enumerate k qs) m"
proof (induction ps arbitrary: qs k m)
  case Nil
  then show ?case by simp
next
  case (Cons p ps)
  then obtain q qs' where q: "qs = q # qs'" "pkg_name p = pkg_name q"
     "map pkg_name ps = map pkg_name qs'" by (cases qs) auto
  from Cons.IH[OF q(3)] show ?case using q(1,2) by (simp add: pkg_name_def)
qed

lemma packagesByName_cong:
  "map pkg_name ps = map pkg_name qs \<Longrightarrow> packagesByName ps = packagesByName qs"
  unfolding packagesByName_def by (rule packagesByName_fold_cong)

lemma shape_update:
  "caret_key al k \<Longrightarrow> caret v \<Longrightarrow> shape (AList.update k v al) = shape al"
proof (induction al)
  case Nil
  then show ?case by (simp add: caret_key_def)
next
  case (Cons e al)
  show ?case
  proof (cases "fst e = k")
    case True
    then show ?thesis using Cons.prems by (cases e) (simp add: shape_def caret_key_def)
  next
    case False
    then have "caret_key al k" using Cons.prems(1) by (cases e) (auto simp: caret_key_def)
    from Cons.IH[OF this Cons.prems(2)] show ?thesis using False by (simp add: shape_def)
  qed
qed

lemma caret_key_update:
  "caret v \<Longrightarrow> caret_key al k' \<Longrightarrow> caret_key (AList.update k v al) k'"
  by (simp add: caret_key_def update_conv')

lemma shape_fold_update:
  "\<forall>(k, v) \<in> set kvs. caret v \<and> caret_key al k \<Longrightarrow>
   shape (fold (\<lambda>(k, v). AList.update k v) kvs al) = shape al"
proof (induction kvs arbitrary: al)
  case Nil
  show ?case by simp
next
  case (Cons kv kvs)
  obtain k v where kv: "kv = (k, v)" by (cases kv) auto
  have 1: "caret v" "caret_key al k" using Cons.prems kv by auto
  have "\<forall>(k', v') \<in> set kvs. caret v' \<and> caret_key (AList.update k v al) k'"
    using Cons.prems 1(1) by (auto intro: caret_key_update)
  from Cons.IH[OF this] show ?case using kv shape_update[OF 1(2,1)] by simp
qed

lemma keys_of_shape: "map fst (shape al) = map fst al"
  by (simp add: shape_def comp_def)

lemma alist_eqI:
  "distinct (map fst xs) \<Longrightarrow> map fst xs = map fst ys \<Longrightarrow> map_of xs = map_of ys \<Longrightarrow> xs = ys"
proof (induction xs arbitrary: ys)
  case Nil
  then show ?case by simp
next
  case (Cons x xs)
  then obtain y ys' where y: "ys = y # ys'" "fst x = fst y" "map fst xs = map fst ys'"
    by (cases ys) auto
  from fun_cong[OF Cons.prems(3), of "fst x"]
  have "map_of (x # xs) (fst x) = map_of (y # ys') (fst x)" unfolding y(1) .
  then have xy: "x = y" using y(2) by (cases x; cases y) simp
  have notin: "fst x \<notin> set (map fst xs)" "fst x \<notin> set (map fst ys')"
    using Cons.prems(1) y(3) by auto
  have "map_of xs = map_of ys'"
  proof (rule ext)
    fix k
    show "map_of xs k = map_of ys' k"
    proof (cases "k = fst x")
      case True
      then have "map_of xs k = None" "map_of ys' k = None"
        using notin by (simp_all add: map_of_eq_None_iff)
      then show ?thesis by simp
    next
      case False
      from fun_cong[OF Cons.prems(3), of k]
      have "map_of (x # xs) k = map_of (y # ys') k" unfolding y(1) .
      then show ?thesis using False xy by (cases x) auto
    qed
  qed
  moreover have "distinct (map fst xs)" using Cons.prems(1) by simp
  ultimately have "xs = ys'" using Cons.IH y(3) by blast
  then show ?case using xy y(1) by simp
qed

lemma keys_fold_update:
  "\<forall>(k, v) \<in> set kvs. k \<in> set (map fst al) \<Longrightarrow>
   map fst (fold (\<lambda>(k, v). AList.update k v) kvs al) = map fst al"
proof (induction kvs arbitrary: al)
  case Nil
  show ?case by simp
next
  case (Cons kv kvs)
  obtain k v where kv: "kv = (k, v)" by (cases kv) auto
  have k: "map fst (AList.update k v al) = map fst al"
    using Cons.prems kv by (simp add: update_keys)
  then have "\<forall>(k', v') \<in> set kvs. k' \<in> set (map fst (AList.update k v al))"
    using Cons.prems by auto
  from Cons.IH[OF this] show ?case using kv k by simp
qed

lemma map_of_fold_update_add:
  "map_of (fold (\<lambda>(k, v). AList.update k v) kvs al) = map_of al ++ map_of (rev kvs)"
proof (induction kvs arbitrary: al)
  case Nil
  show ?case by simp
next
  case (Cons kv kvs)
  obtain k v where kv: "kv = (k, v)" by (cases kv) auto
  have "map_of (fold (\<lambda>(k, v). AList.update k v) (kv # kvs) al)
        = (map_of al)(k \<mapsto> v) ++ map_of (rev kvs)"
    using Cons.IH[of "AList.update k v al"] kv by (simp add: update_conv' del: fun_upd_apply)
  also have "\<dots> = map_of al ++ map_of (rev (kv # kvs))"
    unfolding kv by (rule ext) (auto simp: map_add_def split: option.splits)
  finally show ?case .
qed

lemma fold_update_idem:
  assumes "distinct (map fst al)" and "\<forall>(k, v) \<in> set kvs. k \<in> set (map fst al)"
  shows "fold (\<lambda>(k, v). AList.update k v) kvs (fold (\<lambda>(k, v). AList.update k v) kvs al)
         = fold (\<lambda>(k, v). AList.update k v) kvs al"
proof -
  let ?al1 = "fold (\<lambda>(k, v). AList.update k v) kvs al"
  have k1: "map fst ?al1 = map fst al" using keys_fold_update[OF assms(2)] .
  then have "\<forall>(k, v) \<in> set kvs. k \<in> set (map fst ?al1)" using assms(2) by simp
  from keys_fold_update[OF this] have k2: "map fst (fold (\<lambda>(k, v). AList.update k v) kvs ?al1)
      = map fst ?al1" .
  have d1: "distinct (map fst (fold (\<lambda>(k, v). AList.update k v) kvs ?al1))"
    using k2 k1 assms(1) by simp
  have "map_of al ++ map_of (rev kvs) ++ map_of (rev kvs) = map_of al ++ map_of (rev kvs)"
    by (rule ext) (auto simp: map_add_def split: option.splits)
  then have m: "map_of (fold (\<lambda>(k, v). AList.update k v) kvs ?al1) = map_of ?al1"
    by (simp add: map_of_fold_update_add)
  show ?thesis using alist_eqI[OF d1 k2 m] .
qed


lemma caret_new_range: "caret (''^'' @ v)"
  by (simp add: caret_def startsWith_def)

lemma main_writes_keep_shape:
  assumes "distinct (map pkg_name ps)" and "wf_packages ps" and "j < length ps"
    and "get_deps dt (packageJson (ps ! j)) = Some al"
  shows "\<forall>(k, v) \<in> set (writes_to j dt (main_actions plan ps)). caret v \<and> caret_key al k"
proof (clarify)
  fix k v assume "(k, v) \<in> set (writes_to j dt (main_actions plan ps))"
  then have "(j, dt, k, v) \<in> set (main_actions plan ps)" by (simp add: in_writes_to)
  from main_action_origin[OF assms(1) this]
  obtain r :: ComprehensiveRelease where r: "v = ''^'' @ newVersion r"
      "\<exists>al declared. get_deps dt (packageJson (ps ! j)) = Some al
          \<and> (k, declared) \<in> set al \<and> startsWith declared ''^''"
    by blast
  from r(2) obtain al' declared where o': "get_deps dt (packageJson (ps ! j)) = Some al'"
      "(k, declared) \<in> set al'" "startsWith declared ''^''" by blast
  note o' = r(1) o'
  have o: "caret v" "(k, declared) \<in> set al" "caret declared"
    using o' assms(4) by (simp_all add: caret_def startsWith_def)
  have "wf_obj al" using assms(2,3,4) unfolding wf_packages_def by (meson nth_mem)
  then have "map_of al k = Some declared"
    using o(2) by (simp add: wf_obj_def)
  then show "caret v \<and> caret_key al k" using o(1,3) by (simp add: caret_key_def)
qed

lemma caret_key_in_keys: "caret_key al k \<Longrightarrow> k \<in> set (map fst al)"
  by (auto simp: caret_key_def split: option.splits dest: map_of_SomeD intro: rev_image_eqI)

lemma edge_sig_edges_from:
  "map edge_sig (edges_from p d) =
     concat (map (\<lambda>dt. map (\<lambda>s. (pkg_name p, dt, snd s))
                          (filter (\<lambda>s. fst s = d) (shape (entries_of (get_deps dt (packageJson p))))))
                 dependencyTypes)"
  by (simp add: edges_from_def map_concat comp_def filter_map shape_def edge_sig_def pkg_name_def)

lemma shape_entries_memory:
  assumes "distinct (map pkg_name ps)" and "wf_packages ps" and "j < length ps"
  shows "shape (entries_of (get_deps dt (packageJson (fold apply_action (main_actions plan ps) ps ! j))))
         = shape (entries_of (get_deps dt (packageJson (ps ! j))))"
proof (cases "get_deps dt (packageJson (ps ! j))")
  case None
  then show ?thesis
    using get_deps_fold_actions[OF assms(3), of dt "main_actions plan ps"] by simp
next
  case (Some al)
  from shape_fold_update[OF main_writes_keep_shape[OF assms Some, of plan]]
  show ?thesis
    using get_deps_fold_actions[OF assms(3), of dt "main_actions plan ps"] Some
    by (simp add: entries_of_def)
qed

lemma map_nth_cong:
  "length xs = length ys \<Longrightarrow> (\<And>j. j < length xs \<Longrightarrow> f (xs ! j) = f (ys ! j)) \<Longrightarrow>
   map f xs = map f ys"
  by (rule nth_equalityI) simp_all

lemma edge_sig_dependents_memory:
  assumes "distinct (map pkg_name ps)" and "wf_packages ps"
  shows "map edge_sig (dependents_of (fold apply_action (main_actions plan ps) ps) d)
         = map edge_sig (dependents_of ps d)"
proof -
  let ?ps1 = "fold apply_action (main_actions plan ps) ps"
  have "map (\<lambda>p. map edge_sig (edges_from p d)) ?ps1 = map (\<lambda>p. map edge_sig (edges_from p d)) ps"
  proof (rule map_nth_cong)
    show "length ?ps1 = length ps" by simp
    fix j assume "j < length ?ps1"
    then have j: "j < length ps" by simp
    show "map edge_sig (edges_from (?ps1 ! j) d) = map edge_sig (edges_from (ps ! j) d)"
      unfolding edge_sig_edges_from
      by (simp add: shape_entries_memory[OF assms j] pkg_name_memory[OF j])
  qed
  then show ?thesis
    by (simp add: dependents_of_def map_concat comp_def)
qed

lemma dep_actions_by_sig:
  "dep_actions r deps pbn rbn =
     concat (map (\<lambda>s. if (case rbn (fst s) of None \<Rightarrow> True
                            | Some e \<Rightarrow> oldVersion e = newVersion e) \<and> snd (snd s)
                       then (case pbn (fst s) of None \<Rightarrow> []
                             | Some i \<Rightarrow> [(i, fst (snd s), rel_name r, ''^'' @ newVersion r)])
                       else [])
                 (map edge_sig deps))"
  by (simp add: dep_actions_def processed_def not_released_def edge_sig_def caret_def comp_def
        cong: if_cong option.case_cong)

lemma dep_actions_cong:
  "map edge_sig deps = map edge_sig deps' \<Longrightarrow>
   dep_actions r deps pbn rbn = dep_actions r deps' pbn rbn"
  by (simp add: dep_actions_by_sig)

lemma plan_actions_main:
  "plan_actions rs (getDependentsGraph ps) pbn rbn =
     concat (map (\<lambda>r. if rel_type r = minor
                       then dep_actions r (dependents_of ps (rel_name r)) pbn rbn else []) rs)"
proof -
  have "(case getDependentsGraph ps d of None \<Rightarrow> [] | Some deps \<Rightarrow> dep_actions r deps pbn rbn)
        = dep_actions r (dependents_of ps d) pbn rbn" for r d
    by (simp add: getDependentsGraph_lookup dep_actions_def)
  then show ?thesis by (simp add: plan_actions_def cong: if_cong)
qed

lemma names_memory:
  "map pkg_name (fold apply_action acts ps) = map pkg_name ps"
  by (rule map_nth_cong) (simp_all add: pkg_name_memory)

lemma main_actions_memory:
  assumes "distinct (map pkg_name ps)" and "wf_packages ps"
  shows "main_actions plan (fold apply_action (main_actions plan ps) ps) = main_actions plan ps"
proof -
  define ps1 where "ps1 = fold apply_action (main_actions plan ps) ps"
  have pbn: "packagesByName ps1 = packagesByName ps"
    unfolding ps1_def by (rule packagesByName_cong) (rule names_memory)
  have da: "dep_actions r (dependents_of ps1 d) pbn rbn
            = dep_actions r (dependents_of ps d) pbn rbn" for r d pbn rbn
    unfolding ps1_def by (rule dep_actions_cong) (rule edge_sig_dependents_memory[OF assms])
  have "main_actions plan ps1 = main_actions plan ps"
    unfolding main_actions_def plan_actions_main pbn da ..
  then show ?thesis unfolding ps1_def .
qed

lemma package_eqI:
  assumes "dir p = dir q" and "name (packageJson p) = name (packageJson q)"
    and "version (packageJson p) = version (packageJson q)"
    and "isPrivate (packageJson p) = isPrivate (packageJson q)"
    and "\<And>dt. get_deps dt (packageJson p) = get_deps dt (packageJson q)"
  shows "p = (q :: Package)"
proof -
  have "dependencies (packageJson p) = dependencies (packageJson q)"
    using assms(5)[of T_dependencies] by simp
  moreover have "devDependencies (packageJson p) = devDependencies (packageJson q)"
    using assms(5)[of T_devDependencies] by simp
  moreover have "peerDependencies (packageJson p) = peerDependencies (packageJson q)"
    using assms(5)[of T_peerDependencies] by simp
  ultimately have "packageJson p = packageJson q"
    using assms(2,3,4) by (cases "packageJson p"; cases "packageJson q") simp
  then show ?thesis using assms(1) by (cases p; cases q) simp
qed

lemma memory_fixed:
  assumes "distinct (map pkg_name ps)" and "wf_packages ps"
  shows "fold apply_action (main_actions plan ps) (fold apply_action (main_actions plan ps) ps)
         = fold apply_action (main_actions plan ps) ps"
proof (rule nth_equalityI)
  let ?acts = "main_actions plan ps"
  let ?ps1 = "fold apply_action ?acts ps"
  show "length (fold apply_action ?acts ?ps1) = length ?ps1" by simp
  fix j assume "j < length (fold apply_action ?acts ?ps1)"
  then have j: "j < length ps" and j1: "j < length ?ps1" by simp_all
  show "fold apply_action ?acts ?ps1 ! j = ?ps1 ! j"
  proof (rule package_eqI)
    show "dir (fold apply_action ?acts ?ps1 ! j) = dir (?ps1 ! j)"
      using frame_fold_actions[OF j1, of ?acts] by simp
    show "name (packageJson (fold apply_action ?acts ?ps1 ! j)) = name (packageJson (?ps1 ! j))"
      using frame_fold_actions[OF j1, of ?acts] by simp
    show "version (packageJson (fold apply_action ?acts ?ps1 ! j)) = version (packageJson (?ps1 ! j))"
      using frame_fold_actions[OF j1, of ?acts] by simp
    show "isPrivate (packageJson (fold apply_action ?acts ?ps1 ! j))
          = isPrivate (packageJson (?ps1 ! j))"
      using frame_fold_actions[OF j1, of ?acts] by simp
    fix dt
    show "get_deps dt (packageJson (fold apply_action ?acts ?ps1 ! j))
          = get_deps dt (packageJson (?ps1 ! j))"
    proof (cases "get_deps dt (packageJson (ps ! j))")
      case None
      then show ?thesis
        using get_deps_fold_actions[OF j1, of dt ?acts] get_deps_fold_actions[OF j, of dt ?acts]
        by simp
    next
      case (Some al)
      have "wf_obj al" using assms(2) j Some unfolding wf_packages_def by (meson nth_mem)
      then have d: "distinct (map fst al)" by (simp add: wf_obj_def)
      have "\<forall>(k, v) \<in> set (writes_to j dt ?acts). k \<in> set (map fst al)"
        using main_writes_keep_shape[OF assms j Some, of plan] caret_key_in_keys by blast
      from fold_update_idem[OF d this] show ?thesis
        using get_deps_fold_actions[OF j1, of dt ?acts] get_deps_fold_actions[OF j, of dt ?acts]
          Some by simp
    qed
  qed
qed

lemma main_fixed_point:
  assumes "distinct (map pkg_name ps)" and "wf_packages ps"
  shows "main plan (memory (main plan ps)) = main plan ps"
proof -
  let ?ps1 = "fold apply_action (main_actions plan ps) ps"
  have mem: "memory (main plan ps) = ?ps1" unfolding main_run[OF assms(1)] by simp
  have d1: "distinct (map pkg_name ?ps1)" using assms(1) by (simp add: names_memory)
  have "main plan (memory (main plan ps)) = main plan ?ps1" by (simp only: mem)
  also have "\<dots> = main plan ps"
    unfolding main_run[OF d1] main_run[OF assms(1)]
      main_actions_memory[OF assms] memory_fixed[OF assms] ..
  finally show ?thesis .
qed


text \<open>
  Claim C2, as amended. On a package set with pairwise different names and well-formed
  dependency maps, a second run on the packages left by the first, with the same plan,
  succeeds and leaves every package as it is. It is not free of calls: it calls
  \<open>writeFile\<close> again for the same packages, each with the manifest the first run left
  and wrote, and then calls \<open>git add\<close> and \<open>git commit\<close> again whenever the first
  run did. What git does with these calls is outside the model.
\<close>

theorem second_run_repeats_first:
  assumes "distinct (map (\<lambda>p. name (packageJson p)) packages)" and "wf_packages packages"
  shows "outcome (main plan (memory (main plan packages))) = None
     \<and> memory (main plan (memory (main plan packages))) = memory (main plan packages)
     \<and> effects (main plan (memory (main plan packages))) = effects (main plan packages)
     \<and> (\<forall>p. WriteFile p \<in> set (effects (main plan (memory (main plan packages))))
            \<longrightarrow> WriteFile p \<in> set (effects (main plan packages))
                \<and> p \<in> set (memory (main plan packages)))"
proof -
  have pn: "pkg_name = (\<lambda>p. name (packageJson p))"
    by (rule ext) (simp add: pkg_name_def)
  have d: "distinct (map pkg_name packages)" using assms(1) by (simp add: pn)
  have out: "outcome (main plan packages) = None" unfolding main_run[OF d] by simp
  have fp: "main plan (memory (main plan packages)) = main plan packages"
    using main_fixed_point[OF d assms(2), of plan] .
  let ?U = "fold set_add (map fst (main_actions plan packages)) []"
  let ?mem = "fold apply_action (main_actions plan packages) packages"
  have written: "p \<in> set (memory (main plan packages))"
    if "WriteFile p \<in> set (effects (main plan packages))" for p
  proof -
    from that obtain j where j: "j \<in> set ?U" "p = ?mem ! j"
      unfolding main_run[OF d] by (auto split: if_splits)
    have "j < length ?mem" using main_updated_set(2)[OF d, of plan] j(1) by simp
    then have "p \<in> set ?mem" using j(2) by simp
    then show ?thesis unfolding main_run[OF d] by simp
  qed
  show ?thesis using out written unfolding fp by blast
qed

lemma wf_test_packages: "wf_packages test_packages"
proof -
  have "wf_obj al" if "get_deps dt (packageJson p) = Some al" "p \<in> set test_packages"
    for dt al p
    using that
    by (cases dt)
       (auto simp: test_packages_def package_a_def package_b_def package_c_def wf_obj_def)
  then show ?thesis unfolding wf_packages_def by blast
qed

theorem second_run_repeats_first_witness:
  "outcome (main \<lparr>releases = [release_a_minor]\<rparr>
      (memory (main \<lparr>releases = [release_a_minor]\<rparr> test_packages))) = None
   \<and> memory (main \<lparr>releases = [release_a_minor]\<rparr>
      (memory (main \<lparr>releases = [release_a_minor]\<rparr> test_packages)))
     = memory (main \<lparr>releases = [release_a_minor]\<rparr> test_packages)
   \<and> effects (main \<lparr>releases = [release_a_minor]\<rparr>
      (memory (main \<lparr>releases = [release_a_minor]\<rparr> test_packages)))
     = effects (main \<lparr>releases = [release_a_minor]\<rparr> test_packages)"
proof -
  have "distinct (map (\<lambda>p. name (packageJson p)) test_packages)"
    by (simp add: test_packages_def package_a_def package_b_def package_c_def)
  from second_run_repeats_first[OF this wf_test_packages, of "\<lparr>releases = [release_a_minor]\<rparr>"]
  show ?thesis by blast
qed

text \<open>
  Claim C2 as stated fails: after the first run of the test suite's example, the second
  run calls \<open>writeFile\<close> for the two manifests again (and then \<open>git add\<close> and
  \<open>git commit\<close>).
\<close>

lemma first_run_example:
  "main \<lparr>releases = [release_a_minor]\<rparr> test_packages =
   \<lparr>outcome = None,
    memory = [package_a,
              package_b\<lparr>packageJson := (packageJson package_b)\<lparr>dependencies :=
                 Some [(''@af/package-a'', ''^1.1.0'')]\<rparr>\<rparr>,
              package_c\<lparr>packageJson := (packageJson package_c)\<lparr>dependencies :=
                 Some [(''@af/package-a'', ''^1.1.0''), (''@af/package-b'', ''^1.0.0'')]\<rparr>\<rparr>],
    effects = [WriteFile (package_b\<lparr>packageJson := (packageJson package_b)\<lparr>dependencies :=
                 Some [(''@af/package-a'', ''^1.1.0'')]\<rparr>\<rparr>),
               WriteFile (package_c\<lparr>packageJson := (packageJson package_c)\<lparr>dependencies :=
                 Some [(''@af/package-a'', ''^1.1.0''), (''@af/package-b'', ''^1.0.0'')]\<rparr>\<rparr>),
               GitAdd, GitCommit]\<rparr>"
  by (simp add: main_def propagate_def getDependentsGraph_def packagesByName_def
        releasesByName_def dependencyTypes_def add_dependent_def entries_of_def
        not_released_def startsWith_def write_range_def set_add_def
        test_packages_def package_a_def package_b_def package_c_def release_a_minor_def)

theorem second_run_counterexample:
  "effects (main \<lparr>releases = [release_a_minor]\<rparr>
      (memory (main \<lparr>releases = [release_a_minor]\<rparr> test_packages)))
   = [WriteFile (package_b\<lparr>packageJson := (packageJson package_b)\<lparr>dependencies :=
                 Some [(''@af/package-a'', ''^1.1.0'')]\<rparr>\<rparr>),
      WriteFile (package_c\<lparr>packageJson := (packageJson package_c)\<lparr>dependencies :=
                 Some [(''@af/package-a'', ''^1.1.0''), (''@af/package-b'', ''^1.0.0'')]\<rparr>\<rparr>),
      GitAdd, GitCommit]"
  unfolding first_run_example
  by (simp add: main_def propagate_def getDependentsGraph_def packagesByName_def
        releasesByName_def dependencyTypes_def add_dependent_def entries_of_def
        not_released_def startsWith_def write_range_def set_add_def
        package_a_def package_b_def package_c_def release_a_minor_def)

end
